theory Spec2Isabelle
  imports Complex_Main "HOL-Library.Word" "HOL-Library.AList"
begin

unbundle bit_operations_syntax

section \<open>Python values\<close>

text \<open>
  A payload is a Python \<open>bytes\<close> object: a list of 8-bit values. Python integers are
  unbounded (\<open>int\<close>). Text is a list of characters, each character one code point below
  256. Floating-point results are kept as the expression that computes them: the claims
  below never depend on the rounding of a product, only on which bit patterns of a
  single-precision value are finite.
\<close>

type_synonym byte = "8 word"

datatype error = IndexError | StructError | ValueError | OverflowError

datatype pyfloat =
    F32 "32 word"
  | FInt int
  | FLit string
  | FMul pyfloat pyfloat
  | FDiv pyfloat pyfloat
  | FRound pyfloat nat

datatype pyval = VStr string | VInt int | VBool bool | VFloat pyfloat

type_synonym rec = "(string \<times> pyval) list"

definition dict_update :: "rec \<Rightarrow> rec \<Rightarrow> rec" where
  "dict_update row kvs = foldl (\<lambda>r kv. AList.update (fst kv) (snd kv) r) row kvs"

subsection \<open>Text rendering\<close>

definition digit_lower :: "nat \<Rightarrow> char" where
  "digit_lower n = ''0123456789abcdef'' ! n"

definition digit_upper :: "nat \<Rightarrow> char" where
  "digit_upper n = ''0123456789ABCDEF'' ! n"

fun radix_nat :: "nat \<Rightarrow> (nat \<Rightarrow> char) \<Rightarrow> nat \<Rightarrow> string" where
  "radix_nat b dg n =
     (if b < 2 \<or> n < b then [dg n] else radix_nat b dg (n div b) @ [dg (n mod b)])"

definition str_nat :: "nat \<Rightarrow> string" where
  "str_nat n = radix_nat 10 digit_lower n"

definition hex_py :: "int \<Rightarrow> string" where
  "hex_py n = (if n < 0 then ''-0x'' @ radix_nat 16 digit_lower (nat (- n))
               else ''0x'' @ radix_nat 16 digit_lower (nat n))"

definition fmt_02X :: "int \<Rightarrow> string" where
  "fmt_02X n =
     (if n < 0 then ''-'' @ radix_nat 16 digit_upper (nat (- n))
      else let s = radix_nat 16 digit_upper (nat n)
           in if length s < 2 then ''0'' @ s else s)"

definition byte_hex :: "(nat \<Rightarrow> char) \<Rightarrow> byte \<Rightarrow> string" where
  "byte_hex dg b = [dg (unat b div 16), dg (unat b mod 16)]"

definition bytes_hex :: "byte list \<Rightarrow> string" where
  "bytes_hex d = concat (map (byte_hex digit_lower) d)"

section \<open>Field codecs\<close>

definition u16_le :: "int \<Rightarrow> int \<Rightarrow> int" where
  "u16_le b0 b1 = (b0 OR push_bit 8 b1) AND 0xFFFF"

definition s16_le :: "int \<Rightarrow> int \<Rightarrow> int" where
  "s16_le b0 b1 = (let v = u16_le b0 b1 in if v AND 0x8000 \<noteq> 0 then v - 0x10000 else v)"

definition u16_be :: "int \<Rightarrow> int \<Rightarrow> int" where
  "u16_be b0 b1 = (push_bit 8 b0 OR b1) AND 0xFFFF"

definition u32_le :: "int \<Rightarrow> int \<Rightarrow> int \<Rightarrow> int \<Rightarrow> int" where
  "u32_le b0 b1 b2 b3 =
     (b0 OR push_bit 8 b1 OR push_bit 16 b2 OR push_bit 24 b3) AND 0xFFFFFFFF"

definition s8 :: "int \<Rightarrow> int" where
  "s8 v = (if v \<ge> 128 then v - 256 else v)"

text \<open>\<open>d[i]\<close> for an index the caller has checked.\<close>

definition byte_at :: "byte list \<Rightarrow> nat \<Rightarrow> int" where
  "byte_at d i = uint (d ! i)"

definition compute_checksum :: "int \<Rightarrow> byte list \<Rightarrow> int" where
  "compute_checksum broadcast_id data =
     (broadcast_id + 8 + sum_list (map uint (take 7 data))) AND 0xFF"

definition bit01 :: "int \<Rightarrow> nat \<Rightarrow> pyval" where
  "bit01 w b = VInt (if drop_bit b w AND 1 \<noteq> 0 then 1 else 0)"

definition expand_bits_word :: "int \<Rightarrow> string \<Rightarrow> rec" where
  "expand_bits_word word prefix =
     map (\<lambda>b. (prefix @ ''_bit'' @ str_nat b, bit01 word b)) [0..<16]"

definition expand_bits_bytes :: "byte list \<Rightarrow> rec" where
  "expand_bits_bytes data =
     concat (map (\<lambda>(i, b).
         [(''b'' @ str_nat i, VInt (uint b)),
          (''b'' @ str_nat i @ ''_hex'', VStr (byte_hex digit_upper b))]
         @ map (\<lambda>k. (''b'' @ str_nat i @ ''_bit'' @ str_nat k, bit01 (uint b) k)) [0..<8])
       (zip [0..<length data] data))"

text \<open>
  \<open>struct.unpack("<ff", d)\<close> needs exactly eight bytes; the result is returned as
  (high word, low word), the two little-endian 32-bit patterns.
\<close>

definition word32_le :: "byte \<Rightarrow> byte \<Rightarrow> byte \<Rightarrow> byte \<Rightarrow> 32 word" where
  "word32_le b0 b1 b2 b3 =
     word_of_int (u32_le (uint b0) (uint b1) (uint b2) (uint b3))"

definition floats_le :: "byte list \<Rightarrow> error + (32 word \<times> 32 word)" where
  "floats_le d =
     (if length d \<noteq> 8 then Inl StructError
      else Inr (word32_le (d ! 4) (d ! 5) (d ! 6) (d ! 7),
                word32_le (d ! 0) (d ! 1) (d ! 2) (d ! 3)))"

text \<open>
  \<open>int(round(f))\<close> on a single-precision value: an all-ones exponent is an infinity
  (\<open>OverflowError\<close>) or a NaN (\<open>ValueError\<close>); every other pattern is a finite
  number, rounded to the nearest integer with ties to even.
\<close>

definition round_half_even :: "int \<Rightarrow> nat \<Rightarrow> int" where
  "round_half_even m k =
     (let q = m div 2 ^ k; r = m mod 2 ^ k
      in if k = 0 then m
         else if r > 2 ^ (k - 1) \<or> (r = 2 ^ (k - 1) \<and> odd q) then q + 1 else q)"

definition int_round_f32 :: "32 word \<Rightarrow> error + int" where
  "int_round_f32 w =
     (let e = uint (drop_bit 23 w AND 0xFF);
          m = uint (w AND 0x7FFFFF);
          sg = (if bit w 31 then - 1 else 1)
      in if e = 255 then (if m = 0 then Inl OverflowError else Inl ValueError)
         else if e = 0 then Inr (sg * round_half_even m 149)
         else if e \<ge> 150 then Inr (sg * ((m + 2 ^ 23) * 2 ^ nat (e - 150)))
         else Inr (sg * round_half_even (m + 2 ^ 23) (nat (150 - e))))"

subsection \<open>Text helpers\<close>

text \<open>\<open>str.lower()\<close> and the whitespace of \<open>str.strip()\<close>, on code points below 256.\<close>

definition lower_char :: "char \<Rightarrow> char" where
  "lower_char c =
     (let n = (of_char c :: nat)
      in if (65 \<le> n \<and> n \<le> 90) \<or> (192 \<le> n \<and> n \<le> 222 \<and> n \<noteq> 215)
         then char_of (n + 32) else c)"

definition py_lower :: "string \<Rightarrow> string" where
  "py_lower s = map lower_char s"

definition py_isspace :: "char \<Rightarrow> bool" where
  "py_isspace c =
     (let n = (of_char c :: nat)
      in (9 \<le> n \<and> n \<le> 13) \<or> (28 \<le> n \<and> n \<le> 32) \<or> n = 133 \<or> n = 160)"

definition py_strip :: "string \<Rightarrow> string" where
  "py_strip s = rev (dropWhile py_isspace (rev (dropWhile py_isspace s)))"

section \<open>Per-family decoders\<close>

definition head_fields :: "string \<Rightarrow> int \<Rightarrow> string \<Rightarrow> rec" where
  "head_fields ts can_id name =
     [(''timestamp'', VStr ts), (''id_hex'', VStr (hex_py can_id)), (''message'', VStr name)]"

definition scaled :: "int \<Rightarrow> string \<Rightarrow> pyfloat" where
  "scaled raw lit = FMul (FInt raw) (FLit lit)"

definition OR_CAN_BASE :: int where "OR_CAN_BASE = 0x6B0"
definition OR_SVOLT :: int where "OR_SVOLT = OR_CAN_BASE + 0x00"
definition OR_PACK :: int where "OR_PACK = OR_CAN_BASE + 0x01"
definition OR_STEMP :: int where "OR_STEMP = OR_CAN_BASE + 0x02"
definition OR_FLAGS :: int where "OR_FLAGS = OR_CAN_BASE + 0x03"
definition OR_AVOLT :: int where "OR_AVOLT = OR_CAN_BASE + 0x04"
definition OR_ATEMP :: int where "OR_ATEMP = OR_CAN_BASE + 0x05"
definition THERM_GENERAL :: int where "THERM_GENERAL = 0x1838F380"
definition THERM_ADDRCLAIM :: int where "THERM_ADDRCLAIM = 0x18EEFF80"

definition decode_or_svolt :: "string \<Rightarrow> int \<Rightarrow> byte list \<Rightarrow> error + rec list" where
  "decode_or_svolt ts can_id d =
     (if length d < 7 then Inl IndexError
      else Inr [head_fields ts can_id ''OR_SVOLT'' @
        [(''high_cell_voltage_V'', VFloat (FRound (scaled (u16_le (byte_at d 0) (byte_at d 1)) ''1e-4'') 4)),
         (''high_cell_id'', VInt (byte_at d 2)),
         (''low_cell_voltage_V'', VFloat (FRound (scaled (u16_le (byte_at d 4) (byte_at d 5)) ''1e-4'') 4)),
         (''low_cell_id'', VInt (byte_at d 6))]])"

definition decode_or_pack :: "string \<Rightarrow> int \<Rightarrow> byte list \<Rightarrow> error + rec list" where
  "decode_or_pack ts can_id d =
     (if length d < 8 then Inl IndexError
      else Inr [head_fields ts can_id ''OR_PACK'' @
        [(''pack_current_A'', VFloat (FDiv (FInt (s16_le (byte_at d 0) (byte_at d 1))) (FLit ''10.0''))),
         (''pack_voltage_V'', VFloat (FDiv (FInt (u16_le (byte_at d 2) (byte_at d 3))) (FLit ''10.0''))),
         (''state_of_charge_pct'', VFloat (scaled (u16_le (byte_at d 4) (byte_at d 5)) ''0.5'')),
         (''num_cells'', VInt (u16_le (byte_at d 6) (byte_at d 7)))]])"

definition decode_or_stemp :: "string \<Rightarrow> int \<Rightarrow> byte list \<Rightarrow> error + rec list" where
  "decode_or_stemp ts can_id d =
     (if length d < 8 then Inl IndexError
      else Inr [head_fields ts can_id ''OR_STEMP'' @
        [(''high_temp_C'', VInt (s16_le (byte_at d 0) (byte_at d 1))),
         (''high_temp_id'', VInt (u16_le (byte_at d 2) (byte_at d 3))),
         (''low_temp_C'', VInt (s16_le (byte_at d 4) (byte_at d 5))),
         (''low_temp_id'', VInt (u16_le (byte_at d 6) (byte_at d 7)))]])"

definition flag_bit_names :: "string list" where
  "flag_bit_names =
     [''Low Cell Voltage'', ''High Cell Voltage'', ''Over Temp'', ''Open Wiring'',
      ''Internal Comm'', ''Charge Enable Relay'', ''Discharge Relay'', ''Blank'']"

definition flag_key :: "string \<Rightarrow> string" where
  "flag_key n = ''flag0_'' @ py_lower (map (\<lambda>c. if c = CHR '' '' then CHR ''_'' else c) n)"

definition decode_or_flags :: "string \<Rightarrow> int \<Rightarrow> byte list \<Rightarrow> error + rec list" where
  "decode_or_flags ts can_id d =
     (if length d < 1 then Inl IndexError
      else Inr [head_fields ts can_id ''OR_FLAGS'' @
        map (\<lambda>(i, n). (flag_key n, VBool (byte_at d 0 AND push_bit i 1 \<noteq> 0)))
            (zip [0..<length flag_bit_names] flag_bit_names) @
        [(''raw_flags_hex'', VStr (bytes_hex d))]])"

definition decode_or_avolt :: "string \<Rightarrow> int \<Rightarrow> byte list \<Rightarrow> bool \<Rightarrow> error + rec list" where
  "decode_or_avolt ts can_id d include_bits =
     (if length d < 8 then Inl IndexError
      else let cell_id = byte_at d 0;
               inst_voltage_V = scaled (u16_be (byte_at d 1) (byte_at d 2)) ''1e-4'';
               shunting = (byte_at d 3 AND 0x80 \<noteq> 0);
               res_raw = push_bit 8 (byte_at d 3 AND 0x7F) OR byte_at d 4;
               internal_mOhm = scaled res_raw ''0.01'';
               ocv_V = scaled (u16_be (byte_at d 5) (byte_at d 6)) ''1e-4'';
               checksum = byte_at d 7;
               checksum_ok = (checksum = compute_checksum can_id d);
               base = head_fields ts can_id ''OR_AVOLT'' @
                 [(''cell_id'', VInt cell_id),
                  (''inst_voltage_V'', VFloat (FRound inst_voltage_V 4)),
                  (''internal_resistance_mOhm'', VFloat (FRound internal_mOhm 2)),
                  (''shunting'', VBool shunting),
                  (''open_circuit_voltage_V'', VFloat (FRound ocv_V 4)),
                  (''checksum'', VInt checksum), (''checksum_ok'', VBool checksum_ok)]
           in Inr [if include_bits then dict_update base (expand_bits_bytes d) else base])"

definition decode_or_atemp :: "string \<Rightarrow> int \<Rightarrow> byte list \<Rightarrow> error + rec list" where
  "decode_or_atemp ts can_id d =
     (if length d < 8 then Inl IndexError
      else Inr (concat (map (\<lambda>i.
             let tid = byte_at d i; temp = s8 (byte_at d (i + 1))
             in if tid = 0 \<and> temp = 0 \<and> i > 0 then []
                else [head_fields ts can_id ''OR_ATEMP'' @
                      [(''thermistor_local_id'', VInt tid), (''temp_C'', VInt temp)]])
           [0, 2, 4, 6])))"

definition decode_therm_general :: "string \<Rightarrow> int \<Rightarrow> byte list \<Rightarrow> error + rec list" where
  "decode_therm_general ts can_id d =
     (if length d < 8 then Inl IndexError
      else Inr [head_fields ts can_id ''THERM_GENERAL'' @
        [(''thermistor_global_id'', VInt (byte_at d 0)), (''temp_C'', VInt (s8 (byte_at d 1))),
         (''thermistor_local_id'', VInt (byte_at d 2 AND 0x7F)),
         (''local_fault'', VBool (byte_at d 2 AND 0x80 \<noteq> 0)),
         (''lowest_temp_C'', VInt (s8 (byte_at d 3))), (''highest_temp_C'', VInt (s8 (byte_at d 4))),
         (''module_highest_id'', VInt (byte_at d 5)), (''module_lowest_id'', VInt (byte_at d 6)),
         (''reserved'', VInt (byte_at d 7))]])"

definition decode_therm_addrclaim :: "string \<Rightarrow> int \<Rightarrow> byte list \<Rightarrow> error + rec list" where
  "decode_therm_addrclaim ts can_id d =
     (if length d < 8 then Inl IndexError
      else Inr [head_fields ts can_id ''THERM_ADDR_CLAIM'' @
        [(''unique_id_hex'', VStr (bytes_hex (take 3 d))),
         (''bms_target_addr'', VInt (byte_at d 3)), (''module_number_shifted'', VInt (byte_at d 4)),
         (''const_5'', VInt (byte_at d 5)), (''const_6'', VInt (byte_at d 6)),
         (''const_7'', VInt (byte_at d 7))]])"

definition MC_CAN_BASE1 :: int where "MC_CAN_BASE1 = 0x400"
definition MC_CAN_BASE2 :: int where "MC_CAN_BASE2 = 0x420"
definition DC_CAN_BASE :: int where "DC_CAN_BASE = 0x500"
definition STW_CAN_BASE :: int where "STW_CAN_BASE = 0x540"
definition BP_CAN_BASE :: int where "BP_CAN_BASE = 0x580"
definition MPPT_CAN_BASE :: int where "MPPT_CAN_BASE = 0x600"
definition MPPT_CAN_ONOFF :: int where "MPPT_CAN_ONOFF = MPPT_CAN_BASE + 0x10"

definition MC_OFFSETS :: "(int \<times> string) list" where
  "MC_OFFSETS =
     [(0x01, ''MC_LIMITS''), (0x02, ''MC_BUS''), (0x03, ''MC_VELOCITY''), (0x04, ''MC_PHASE''),
      (0x05, ''MC_V_VECTOR''), (0x06, ''MC_I_VECTOR''), (0x07, ''MC_BEMF_VECTOR''),
      (0x08, ''MC_RAIL1''), (0x09, ''MC_RAIL2''), (0x0B, ''MC_TEMP1''), (0x0C, ''MC_TEMP2''),
      (0x0E, ''MC_CUMULATIVE''), (0x17, ''MC_SLIPSPEED'')]"

definition DC_OFFSETS :: "(int \<times> string) list" where
  "DC_OFFSETS = [(0x01, ''DC_DRIVE''), (0x02, ''DC_POWER''), (0x03, ''DC_RESET''),
                 (0x04, ''DC_SWITCH'')]"

definition STW_OFFSETS :: "(int \<times> string) list" where
  "STW_OFFSETS = [(0x01, ''STW_SWITCH'')]"

definition BP_OFFSETS :: "(int \<times> string) list" where
  "BP_OFFSETS = [(0x01, ''BP_VMAX''), (0x02, ''BP_VMIN''), (0x03, ''BP_TMAX''),
                 (0x04, ''BP_PCDONE''), (0x05, ''BP_ISH''), (0x06, ''BP_PVSS''),
                 (0x07, ''BP_RESET'')]"

definition STW_FLAGS :: "(nat \<times> string) list" where
  "STW_FLAGS = [(0, ''HORN''), (1, ''IND_L''), (2, ''IND_R''), (3, ''REGEN''), (4, ''CRUISE'')]"

text \<open>\<open>TABLE.get(offset, f"<FAMILY>_UNKNOWN_{offset:02X}")\<close>\<close>

definition offset_name :: "(int \<times> string) list \<Rightarrow> string \<Rightarrow> int \<Rightarrow> string" where
  "offset_name table family offset =
     (case map_of table offset of Some n \<Rightarrow> n
      | None \<Rightarrow> family @ ''_UNKNOWN_'' @ fmt_02X offset)"

definition split_words_le :: "byte list \<Rightarrow> error + (int \<times> int \<times> int \<times> int)" where
  "split_words_le d =
     (if length d < 8 then Inl IndexError
      else Inr (u16_le (byte_at d 0) (byte_at d 1), u16_le (byte_at d 2) (byte_at d 3),
                u16_le (byte_at d 4) (byte_at d 5), u16_le (byte_at d 6) (byte_at d 7)))"

definition decode_mc :: "string \<Rightarrow> int \<Rightarrow> byte list \<Rightarrow> error + rec list" where
  "decode_mc ts can_id d =
     (let base = (if MC_CAN_BASE1 \<le> can_id \<and> can_id < MC_CAN_BASE1 + 0x20
                  then MC_CAN_BASE1 else MC_CAN_BASE2);
          offset = can_id - base;
          name = offset_name MC_OFFSETS ''MC'' offset
      in case floats_le d of Inl e \<Rightarrow> Inl e
         | Inr (f_hi, f_lo) \<Rightarrow>
           let row = head_fields ts can_id name @
                     [(''base_hex'', VStr (hex_py base)), (''offset'', VInt offset)];
               hi = VFloat (F32 f_hi); lo = VFloat (F32 f_lo)
           in Inr [
             if name = ''MC_BUS'' then
               dict_update row [(''bus_current_A'', hi), (''bus_voltage_V'', lo)]
             else if name = ''MC_VELOCITY'' then
               dict_update row [(''vehicle_velocity_mps'', hi), (''motor_velocity_rpm'', lo)]
             else if name = ''MC_PHASE'' then
               dict_update row [(''phase_c_current_arms'', hi), (''phase_b_current_arms'', lo)]
             else if name = ''MC_V_VECTOR'' then dict_update row [(''Vd'', hi), (''Vq'', lo)]
             else if name = ''MC_I_VECTOR'' then dict_update row [(''Id'', hi), (''Iq'', lo)]
             else if name = ''MC_BEMF_VECTOR'' then
               dict_update row [(''BEMFd'', hi), (''BEMFq'', lo)]
             else if name = ''MC_TEMP1'' then
               dict_update row [(''heatsink_temp_C'', hi), (''motor_temp_C'', lo)]
             else if name = ''MC_TEMP2'' then dict_update row [(''dsp_temp_C'', lo)]
             else if name = ''MC_CUMULATIVE'' then
               dict_update row [(''dc_bus_Ah'', hi), (''odometer_m'', lo)]
             else if name = ''MC_RAIL1'' then dict_update row [(''rail_15V'', hi)]
             else if name = ''MC_RAIL2'' then
               dict_update row [(''rail_3v3'', hi), (''rail_1v9'', lo)]
             else row])"

definition times100 :: "32 word \<Rightarrow> pyval" where
  "times100 f = VFloat (FMul (F32 f) (FLit ''100.0''))"

definition decode_dc :: "string \<Rightarrow> int \<Rightarrow> byte list \<Rightarrow> error + rec list" where
  "decode_dc ts can_id d =
     (let offset = can_id - DC_CAN_BASE;
          name = offset_name DC_OFFSETS ''DC'' offset;
          row = head_fields ts can_id name @ [(''offset'', VInt offset)]
      in if name = ''DC_DRIVE'' then
           (case floats_le d of Inl e \<Rightarrow> Inl e
            | Inr (f_hi, f_lo) \<Rightarrow>
                Inr [dict_update row [(''motor_current_pct'', times100 f_hi),
                                      (''motor_velocity_rpm'', VFloat (F32 f_lo))]])
         else if name = ''DC_POWER'' then
           (case floats_le d of Inl e \<Rightarrow> Inl e
            | Inr (f_hi, f_lo) \<Rightarrow>
                Inr [dict_update row [(''bus_current_cmd_pct'', times100 f_hi)]])
         else if name = ''DC_SWITCH'' then
           (case split_words_le d of Inl e \<Rightarrow> Inl e
            | Inr (w0, w1, w2, w3) \<Rightarrow>
                Inr [dict_update (dict_update row (expand_bits_word w0 ''dc_switch_pos''))
                       (expand_bits_word w1 ''dc_switch_change'')])
         else Inr [row])"

definition decode_stw :: "string \<Rightarrow> int \<Rightarrow> byte list \<Rightarrow> error + rec list" where
  "decode_stw ts can_id d =
     (let offset = can_id - STW_CAN_BASE;
          name = offset_name STW_OFFSETS ''STW'' offset
      in case split_words_le d of Inl e \<Rightarrow> Inl e
         | Inr (w0, w1, w2, w3) \<Rightarrow>
           let row = head_fields ts can_id name
           in if name = ''STW_SWITCH'' then
                Inr [dict_update
                       (dict_update (dict_update row (expand_bits_word w0 ''stw_pos''))
                          (expand_bits_word w1 ''stw_change''))
                       (map (\<lambda>(b, label). (''stw_pos_'' @ py_lower label, bit01 w0 b)) STW_FLAGS)]
              else Inr [dict_update row [(''word0'', VInt w0), (''word1'', VInt w1),
                                         (''word2'', VInt w2), (''word3'', VInt w3)]])"

definition decode_bp :: "string \<Rightarrow> int \<Rightarrow> byte list \<Rightarrow> error + rec list" where
  "decode_bp ts can_id d =
     (let offset = can_id - BP_CAN_BASE;
          name = offset_name BP_OFFSETS ''BP'' offset;
          row = head_fields ts can_id name @ [(''offset'', VInt offset)]
      in case floats_le d of Inl e \<Rightarrow> Inl e
         | Inr (f_hi, f_lo) \<Rightarrow>
           if name = ''BP_VMAX'' then
             (case int_round_f32 f_lo of Inl e \<Rightarrow> Inl e
              | Inr k \<Rightarrow> Inr [dict_update row [(''max_cell_voltage_V'', VFloat (F32 f_hi)),
                                                (''max_cell_id'', VInt k)]])
           else if name = ''BP_VMIN'' then
             (case int_round_f32 f_lo of Inl e \<Rightarrow> Inl e
              | Inr k \<Rightarrow> Inr [dict_update row [(''min_cell_voltage_V'', VFloat (F32 f_hi)),
                                                (''min_cell_id'', VInt k)]])
           else if name = ''BP_TMAX'' then
             (case int_round_f32 f_lo of Inl e \<Rightarrow> Inl e
              | Inr k \<Rightarrow> Inr [dict_update row [(''max_temp_C'', VFloat (F32 f_hi)),
                                                (''max_temp_cell'', VInt k)]])
           else if name = ''BP_ISH'' then
             Inr [dict_update row [(''shunt_current_A'', VFloat (F32 f_hi)),
                                   (''state_of_charge_pct'', VFloat (F32 f_lo))]]
           else if name = ''BP_PVSS'' then
             Inr [dict_update row [(''pack_voltage_V'', VFloat (F32 f_lo)),
                                   (''shunt_sum'', VFloat (F32 f_hi))]]
           else Inr [row])"

definition decode_mppt :: "string \<Rightarrow> int \<Rightarrow> byte list \<Rightarrow> error + rec list" where
  "decode_mppt ts can_id d =
     (let sub_id = can_id - MPPT_CAN_BASE
      in case split_words_le d of Inl e \<Rightarrow> Inl e
         | Inr (w0, w1, w2, w3) \<Rightarrow>
           let row = head_fields ts can_id ''MPPT'' @
                     [(''sub_id'', VInt sub_id), (''word0'', VInt w0), (''word1'', VInt w1),
                      (''word2'', VInt w2), (''word3'', VInt w3)]
           in Inr [if can_id = MPPT_CAN_ONOFF
                   then AList.update ''mppt_onoff_cmd'' (VInt (byte_at d 0)) row else row])"

text \<open>
  The table of exact ids. The entry of \<open>OR_AVOLT\<close> is called without keyword
  arguments by both engines, so its \<open>include_bits\<close> is \<open>False\<close>.
\<close>

definition DECODERS_EXACT ::
    "int \<Rightarrow> (string \<Rightarrow> int \<Rightarrow> byte list \<Rightarrow> error + rec list) option" where
  "DECODERS_EXACT can_id =
     map_of [(OR_SVOLT, decode_or_svolt), (OR_PACK, decode_or_pack),
             (OR_STEMP, decode_or_stemp), (OR_FLAGS, decode_or_flags),
             (OR_AVOLT, \<lambda>ts cid d. decode_or_avolt ts cid d False),
             (OR_ATEMP, decode_or_atemp), (THERM_GENERAL, decode_therm_general),
             (THERM_ADDRCLAIM, decode_therm_addrclaim), (MPPT_CAN_ONOFF, decode_mppt)] can_id"

definition decode_dynamic :: "string \<Rightarrow> int \<Rightarrow> byte list \<Rightarrow> error + rec list option" where
  "decode_dynamic ts can_id d =
     (if (MC_CAN_BASE1 \<le> can_id \<and> can_id < MC_CAN_BASE1 + 0x20) \<or>
         (MC_CAN_BASE2 \<le> can_id \<and> can_id < MC_CAN_BASE2 + 0x20)
      then map_sum id Some (decode_mc ts can_id d)
      else if DC_CAN_BASE \<le> can_id \<and> can_id < DC_CAN_BASE + 0x10
      then map_sum id Some (decode_dc ts can_id d)
      else if STW_CAN_BASE \<le> can_id \<and> can_id < STW_CAN_BASE + 0x10
      then map_sum id Some (decode_stw ts can_id d)
      else if BP_CAN_BASE \<le> can_id \<and> can_id < BP_CAN_BASE + 0x10
      then map_sum id Some (decode_bp ts can_id d)
      else if MPPT_CAN_BASE \<le> can_id \<and> can_id < MPPT_CAN_BASE + 0x20
      then map_sum id Some (decode_mppt ts can_id d)
      else Inr None)"

text \<open>\<open>dec(ts, can_id, d) if dec else decode_dynamic(ts, can_id, d)\<close>\<close>

definition dispatch :: "string \<Rightarrow> int \<Rightarrow> byte list \<Rightarrow> error + rec list option" where
  "dispatch ts can_id d =
     (case DECODERS_EXACT can_id of
        Some dec \<Rightarrow> map_sum id Some (dec ts can_id d)
      | None \<Rightarrow> decode_dynamic ts can_id d)"

section \<open>Reading a row\<close>

definition hexval :: "char \<Rightarrow> nat option" where
  "hexval c =
     (let n = (of_char c :: nat)
      in if 48 \<le> n \<and> n \<le> 57 then Some (n - 48)
         else if 97 \<le> n \<and> n \<le> 102 then Some (n - 87)
         else if 65 \<le> n \<and> n \<le> 70 then Some (n - 55)
         else None)"

text \<open>
  \<open>int(s, 16)\<close> on stripped text: an optional sign, an optional \<open>0x\<close> prefix (which one
  underscore may follow), then hexadecimal digits, single underscores allowed between
  digits only. \<open>None\<close> stands for the \<open>ValueError\<close>.
\<close>

fun hex_digits :: "int \<Rightarrow> bool \<Rightarrow> string \<Rightarrow> int option" where
  "hex_digits acc prev_us [] = (if prev_us then None else Some acc)"
| "hex_digits acc prev_us (c # cs) =
     (if c = CHR ''_'' then (if prev_us then None else hex_digits acc True cs)
      else case hexval c of None \<Rightarrow> None
           | Some v \<Rightarrow> hex_digits (16 * acc + int v) False cs)"

definition py_int16 :: "string \<Rightarrow> int option" where
  "py_int16 s =
     (let neg = (s \<noteq> [] \<and> hd s = CHR ''-'');
          s1 = (if s \<noteq> [] \<and> (hd s = CHR ''+'' \<or> hd s = CHR ''-'') then tl s else s);
          pre = (length s1 \<ge> 2 \<and> s1 ! 0 = CHR ''0'' \<and> (s1 ! 1 = CHR ''x'' \<or> s1 ! 1 = CHR ''X''));
          s2 = (if pre then drop 2 s1 else s1);
          s3 = (if pre \<and> s2 \<noteq> [] \<and> hd s2 = CHR ''_'' then tl s2 else s2)
      in if s3 = [] \<or> hd s3 = CHR ''_'' then None
         else map_option (\<lambda>v. if neg then - v else v) (hex_digits 0 False s3))"

definition parse_can_id :: "string \<Rightarrow> int option" where
  "parse_can_id val = py_int16 (py_strip val)"

text \<open>
  \<open>bytes.fromhex\<close>: ASCII whitespace is skipped before each pair of hexadecimal
  digits; anything else is a \<open>ValueError\<close> (\<open>None\<close>).
\<close>

definition ascii_space :: "char \<Rightarrow> bool" where
  "ascii_space c = (let n = (of_char c :: nat) in (9 \<le> n \<and> n \<le> 13) \<or> n = 32)"

fun fromhex :: "string \<Rightarrow> byte list option" where
  "fromhex [] = Some []"
| "fromhex [c] = (if ascii_space c then Some [] else None)"
| "fromhex (c # c2 # cs) =
     (if ascii_space c then fromhex (c2 # cs)
      else case (hexval c, hexval c2) of
             (Some a, Some b) \<Rightarrow> map_option ((#) (word_of_nat (16 * a + b))) (fromhex cs)
           | _ \<Rightarrow> None)"

definition ljust :: "nat \<Rightarrow> char \<Rightarrow> string \<Rightarrow> string" where
  "ljust n c s = s @ replicate (n - length s) c"

text \<open>\<open>str(r.get("data", "")).replace(" ", "").strip()\<close>, then \<open>[:16].ljust(16, "0")\<close>\<close>

definition pad_data :: "string \<Rightarrow> string" where
  "pad_data cell = ljust 16 (CHR ''0'') (take 16 (py_strip (filter (\<lambda>c. c \<noteq> CHR '' '') cell)))"

text \<open>
  A chunk is what the CSV reader hands over: the names of the selected columns and the
  rows, every cell text. \<open>r.get(name, default)\<close> reads a cell by its column's
  normalised name; the (at most four) selected columns are taken to have distinct
  normalised names.
\<close>

type_synonym chunk = "string list \<times> string list list"

definition norm_columns :: "string list \<Rightarrow> string list" where
  "norm_columns cols = map (\<lambda>c. py_lower (py_strip c)) cols"

definition row_get :: "string list \<Rightarrow> string list \<Rightarrow> string \<Rightarrow> string option" where
  "row_get cols r name = map_of (zip cols r) name"

definition with_extras :: "bool \<Rightarrow> byte list \<Rightarrow> string option \<Rightarrow> rec \<Rightarrow> rec" where
  "with_extras include_bits data_b chan row =
     (let row1 = (if include_bits then dict_update row (expand_bits_bytes data_b) else row)
      in case chan of None \<Rightarrow> row1 | Some c \<Rightarrow> AList.update ''channel'' (VStr c) row1)"

text \<open>
  The records one row appends to the buffer: none when the row is skipped (empty or
  unparseable id, payload that is not hexadecimal), the decoder's records otherwise, or
  one \<open>RAW\<close> record when no decoder takes the id. A decoder's exception propagates.
\<close>

definition decoded_records ::
    "bool \<Rightarrow> string \<Rightarrow> string option \<Rightarrow> int \<Rightarrow> string \<Rightarrow> byte list \<Rightarrow> error + rec list" where
  "decoded_records include_bits ts chan can_id data_s data_b =
     (case dispatch ts can_id data_b of
        Inl e \<Rightarrow> Inl e
      | Inr recs \<Rightarrow>
          (case recs of
             None \<Rightarrow>
               Inr [with_extras include_bits data_b chan
                      (head_fields ts can_id ''RAW'' @ [(''raw_data'', VStr data_s)])]
           | Some rs \<Rightarrow> Inr (map (with_extras include_bits data_b chan) rs)))"

definition cell_or :: "string list \<Rightarrow> string list \<Rightarrow> string \<Rightarrow> string \<Rightarrow> string" where
  "cell_or cols r name dflt = (case row_get cols r name of Some v \<Rightarrow> v | None \<Rightarrow> dflt)"

definition row_records :: "bool \<Rightarrow> string list \<Rightarrow> string list \<Rightarrow> error + rec list" where
  "row_records include_bits cols r =
     (let sid = py_strip (cell_or cols r ''id'' [])
      in if sid = [] then Inr []
         else (case parse_can_id sid of
                 None \<Rightarrow> Inr []
               | Some can_id \<Rightarrow>
                   (let data_s = pad_data (cell_or cols r ''data'' [])
                    in (case fromhex data_s of
                          None \<Rightarrow> Inr []
                        | Some data_b \<Rightarrow>
                            decoded_records include_bits (cell_or cols r ''timestamp'' [])
                              (row_get cols r ''channel'') can_id data_s data_b))))"

section \<open>Schema and partitioned writer\<close>

definition EXCEL_XLSX_MAX_ROWS :: int where "EXCEL_XLSX_MAX_ROWS = 1048576"
definition EXCEL_XLS_MAX_ROWS :: int where "EXCEL_XLS_MAX_ROWS = 65536"
definition CHUNK_ROWS :: nat where "CHUNK_ROWS = 300000"
definition FLUSH_EVERY :: nat where "FLUSH_EVERY = 10000"

definition numbered :: "string \<Rightarrow> nat \<Rightarrow> string list" where
  "numbered prefix n = map (\<lambda>i. prefix @ str_nat i) [0..<n]"

definition known_columns :: "bool \<Rightarrow> string list" where
  "known_columns include_bits =
     [''timestamp'', ''id_hex'', ''message'', ''channel'', ''raw_data'',
      ''base_hex'', ''offset'', ''sub_id'',
      ''bus_current_A'', ''bus_voltage_V'',
      ''vehicle_velocity_mps'', ''motor_velocity_rpm'',
      ''phase_c_current_arms'', ''phase_b_current_arms'',
      ''Vd'', ''Vq'', ''Id'', ''Iq'', ''BEMFd'', ''BEMFq'',
      ''heatsink_temp_C'', ''motor_temp_C'', ''dsp_temp_C'',
      ''dc_bus_Ah'', ''odometer_m'', ''rail_15V'', ''rail_3v3'', ''rail_1v9'']
     @ numbered ''mc_limit_bit'' 16
     @ numbered ''dc_switch_pos_bit'' 16
     @ numbered ''dc_switch_change_bit'' 16
     @ numbered ''stw_pos_bit'' 16
     @ numbered ''stw_change_bit'' 16
     @ [''stw_pos_horn'', ''stw_pos_ind_l'', ''stw_pos_ind_r'', ''stw_pos_regen'',
        ''stw_pos_cruise'',
        ''max_cell_voltage_V'', ''max_cell_id'',
        ''min_cell_voltage_V'', ''min_cell_id'',
        ''max_temp_C'', ''max_temp_cell'',
        ''shunt_current_A'', ''state_of_charge_pct'',
        ''pack_voltage_V'', ''shunt_sum'',
        ''mppt_onoff_cmd'',
        ''high_cell_voltage_V'', ''high_cell_id'', ''low_cell_voltage_V'', ''low_cell_id'',
        ''pack_current_A'', ''pack_voltage_V_orion'', ''state_of_charge_pct_orion'',
        ''num_cells'',
        ''high_temp_C_orion'', ''high_temp_id'', ''low_temp_C_orion'', ''low_temp_id'',
        ''flag0_low_cell_voltage'', ''flag0_high_cell_voltage'', ''flag0_over_temp'',
        ''flag0_open_wiring'',
        ''flag0_internal_comm'', ''flag0_charge_enable_relay'', ''flag0_discharge_relay'',
        ''flag0_blank'',
        ''raw_flags_hex'',
        ''cell_id'', ''inst_voltage_V'', ''internal_resistance_mOhm'', ''shunting'',
        ''open_circuit_voltage_V'', ''checksum'', ''checksum_ok'',
        ''thermistor_local_id'', ''temp_C'', ''thermistor_global_id'', ''local_fault'',
        ''lowest_temp_C'',
        ''highest_temp_C'', ''module_highest_id'', ''module_lowest_id'',
        ''unique_id_hex'', ''bms_target_addr'', ''module_number_shifted'',
        ''const_5'', ''const_6'', ''const_7'']
     @ (if include_bits
        then concat (map (\<lambda>i. [''b'' @ str_nat i, ''b'' @ str_nat i @ ''_hex'']
                                @ numbered (''b'' @ str_nat i @ ''_bit'') 8) [0..<8])
        else [])"

text \<open>
  A file is its lines: a header line or a data line (a record reindexed to the schema,
  an absent field left empty). The disk maps a path to its file.
\<close>

datatype line = Header "string list" | Data "pyval option list"

type_synonym disk = "(string \<times> line list) list"

record writer =
  base :: string
  ext :: string
  row_limit :: int
  columns :: "string list"
  part :: nat
  count_in_part :: int
  paths :: "string list"
  header_written :: bool

text \<open>\<open>os.path.splitext\<close> (POSIX): the extension starts at the last dot of the last
  path component, leading dots of that component apart.\<close>

definition splitext :: "string \<Rightarrow> string \<times> string" where
  "splitext p =
     (let comp = rev (takeWhile (\<lambda>c. c \<noteq> CHR ''/'') (rev p));
          rest = dropWhile (\<lambda>c. c = CHR ''.'') comp;
          e = rev (takeWhile (\<lambda>c. c \<noteq> CHR ''.'') (rev rest))
      in if CHR ''.'' \<in> set rest
         then (take (length p - length e - 1) p, drop (length p - length e - 1) p)
         else (p, []))"

definition new_writer :: "string \<Rightarrow> int \<Rightarrow> string list \<Rightarrow> writer" where
  "new_writer out_path limit cols =
     \<lparr> base = fst (splitext out_path), ext = snd (splitext out_path), row_limit = limit,
       columns = cols, part = 1, count_in_part = 0, paths = [], header_written = False \<rparr>"

definition writer_path :: "writer \<Rightarrow> string" where
  "writer_path w =
     (if part w = 1 then base w @ ext w
      else base w @ ''_part'' @ str_nat (part w) @ ext w)"

definition roll :: "writer \<Rightarrow> writer" where
  "roll w = w\<lparr> part := part w + 1, count_in_part := 0, header_written := False \<rparr>"

text \<open>\<open>xs[i:j]\<close> with Python's clamping and its negative indices.\<close>

definition py_slice :: "'a list \<Rightarrow> int \<Rightarrow> int \<Rightarrow> 'a list" where
  "py_slice xs i j =
     (let n = int (length xs);
          i' = (if i < 0 then max (i + n) 0 else min i n);
          j' = (if j < 0 then max (j + n) 0 else min j n)
      in take (nat (j' - i')) (drop (nat i') xs))"

definition reindex :: "string list \<Rightarrow> rec \<Rightarrow> pyval option list" where
  "reindex cols r = map (map_of r) cols"

definition to_csv :: "disk \<Rightarrow> string \<Rightarrow> string list \<Rightarrow> rec list \<Rightarrow> bool \<Rightarrow> bool \<Rightarrow> disk" where
  "to_csv files path cols rows header append_mode =
     (let old = (if append_mode then (case map_of files path of Some ls \<Rightarrow> ls | None \<Rightarrow> [])
                 else [])
      in AList.update path
           (old @ (if header then [Header cols] else []) @ map (\<lambda>r. Data (reindex cols r)) rows)
           files)"

text \<open>
  The loop of \<open>write_df\<close>. It need not end (a row limit of zero rolls for ever), so its
  result is optional: \<open>None\<close> is a call that never returns.
\<close>

partial_function (option) write_loop :: "rec list \<Rightarrow> writer \<Rightarrow> disk \<Rightarrow> int \<Rightarrow> (writer \<times> disk) option" where
  "write_loop df w files start =
     (if start < int (length df) then
        (let room = row_limit w - count_in_part w;
             w1 = (if room \<le> 0 then roll w else w);
             take_n = min room (int (length df) - start);
             chunk = py_slice df start (start + take_n);
             path = writer_path w1;
             w2 = (if path \<in> set (paths w1) then w1 else w1\<lparr> paths := paths w1 @ [path] \<rparr>);
             files' = to_csv files path (columns w2) chunk (\<not> header_written w2) (header_written w2);
             w3 = w2\<lparr> header_written := True,
                      count_in_part := count_in_part w2 + int (length chunk) \<rparr>
         in write_loop df w3 files' (start + take_n))
      else Some (w, files))"

declare write_loop.simps [code]

definition write_df :: "writer \<Rightarrow> disk \<Rightarrow> rec list \<Rightarrow> (writer \<times> disk) option" where
  "write_df w files df = (if df = [] then Some (w, files) else write_loop df w files 0)"

section \<open>Streaming decode engine\<close>

text \<open>
  The engine holds one writer, or two in split mode (\<open>writer_c0\<close> on the first output
  path, \<open>writer_c1\<close> on the second). The two writes of a flush are joined before the
  flush returns and touch different writers, so they are run one after the other.
\<close>

datatype writers = Single writer | Dual writer writer

record engine =
  outs :: writers
  files :: disk
  rows_processed :: nat
  calls :: "(rat \<times> string) list"

definition can1_msgs :: "string list" where
  "can1_msgs = [''OR_SVOLT'', ''OR_PACK'', ''OR_STEMP'', ''OR_FLAGS'', ''OR_AVOLT'',
                ''OR_ATEMP'', ''THERM_GENERAL'', ''THERM_ADDRCLAIM'']"

text \<open>\<open>"channel" in df.columns\<close>: some buffered record has the key.\<close>

definition has_channel :: "rec list \<Rightarrow> bool" where
  "has_channel df = list_ex (\<lambda>r. map_of r ''channel'' \<noteq> None) df"

definition channel_is :: "string \<Rightarrow> rec \<Rightarrow> bool" where
  "channel_is name r =
     (case map_of r ''channel'' of Some (VStr c) \<Rightarrow> py_lower c = name | _ \<Rightarrow> False)"

definition is_c1 :: "rec \<Rightarrow> bool" where
  "is_c1 r = (case map_of r ''message'' of Some (VStr m) \<Rightarrow> m \<in> set can1_msgs | _ \<Rightarrow> False)"

text \<open>The two groups of a flush in split mode: (\<open>df_c0\<close>, \<open>df_c1\<close>).\<close>

definition split_groups :: "rec list \<Rightarrow> rec list \<times> rec list" where
  "split_groups df =
     (if has_channel df
      then (filter (channel_is ''can0'') df, filter (channel_is ''can1'') df)
      else (filter (\<lambda>r. \<not> is_c1 r) df, filter is_c1 df))"

definition flush :: "writers \<Rightarrow> disk \<Rightarrow> rec list \<Rightarrow> (writers \<times> disk) option" where
  "flush ws fl buf =
     (if buf = [] then Some (ws, fl)
      else (case ws of
              Single w \<Rightarrow> map_option (\<lambda>(w', fl'). (Single w', fl')) (write_df w fl buf)
            | Dual c0 c1 \<Rightarrow>
                (case write_df c0 fl (fst (split_groups buf)) of
                   None \<Rightarrow> None
                 | Some (c0', fl1) \<Rightarrow>
                     map_option (\<lambda>(c1', fl2). (Dual c0' c1', fl2))
                       (write_df c1 fl1 (snd (split_groups buf))))))"

text \<open>
  The row loop of one chunk. The result is \<open>None\<close> when a write never returns; otherwise
  it carries the exception raised, if any, and the writers, disk and buffer reached.
\<close>

fun row_loop ::
    "bool \<Rightarrow> string list \<Rightarrow> writers \<Rightarrow> disk \<Rightarrow> rec list \<Rightarrow> string list list
       \<Rightarrow> (error option \<times> writers \<times> disk \<times> rec list) option" where
  "row_loop include_bits cols ws fl buf [] = Some (None, ws, fl, buf)"
| "row_loop include_bits cols ws fl buf (r # rs) =
     (case row_records include_bits cols r of
        Inl e \<Rightarrow> Some (Some e, ws, fl, buf)
      | Inr recs \<Rightarrow>
          (if length (buf @ recs) \<ge> FLUSH_EVERY
           then (case flush ws fl (buf @ recs) of
                   None \<Rightarrow> None
                 | Some (ws', fl') \<Rightarrow> row_loop include_bits cols ws' fl' [] rs)
           else row_loop include_bits cols ws fl (buf @ recs) rs))"

definition estimate_total_rows :: "nat option \<Rightarrow> nat" where
  "estimate_total_rows line_count = (case line_count of None \<Rightarrow> 0 | Some n_lines \<Rightarrow> n_lines - 1)"

definition progress_call :: "nat \<Rightarrow> nat \<Rightarrow> rat \<times> string" where
  "progress_call total_rows n_done =
     (if total_rows \<noteq> 0
      then (min (of_nat n_done / of_nat total_rows) (999 / 1000),
            ''Processed '' @ str_nat n_done @ '' of '' @ str_nat total_rows @ '' rows'')
      else (0, ''Processed '' @ str_nat n_done @ '' rows''))"

definition filter_channel :: "string option \<Rightarrow> string list \<Rightarrow> string list list \<Rightarrow> string list list" where
  "filter_channel channel cols rows =
     (case channel of
        None \<Rightarrow> rows
      | Some ch \<Rightarrow>
          if ch \<noteq> [] \<and> ''channel'' \<in> set cols
          then filter (\<lambda>r. py_lower (cell_or cols r ''channel'' []) = py_lower ch) rows
          else rows)"

fun chunk_loop ::
    "bool \<Rightarrow> string option \<Rightarrow> bool \<Rightarrow> nat \<Rightarrow> engine \<Rightarrow> chunk list
       \<Rightarrow> (error option \<times> engine) option" where
  "chunk_loop include_bits channel progress_cb total_rows st [] = Some (None, st)"
| "chunk_loop include_bits channel progress_cb total_rows st (ch # chs) =
     (let cols = norm_columns (fst ch);
          rows = filter_channel channel cols (snd ch)
      in if ''id'' \<notin> set cols \<or> ''data'' \<notin> set cols
         then chunk_loop include_bits channel progress_cb total_rows
                (st\<lparr> rows_processed := rows_processed st + length rows \<rparr>) chs
         else (case row_loop include_bits cols (outs st) (files st) [] rows of
                 None \<Rightarrow> None
               | Some (raised, ws, fl, buf) \<Rightarrow>
                   (case raised of
                      Some e \<Rightarrow> Some (Some e, st\<lparr> outs := ws, files := fl \<rparr>)
                    | None \<Rightarrow>
                        (case flush ws fl buf of
                           None \<Rightarrow> None
                         | Some (ws', fl') \<Rightarrow>
                             (let n = rows_processed st + length rows
                              in chunk_loop include_bits channel progress_cb total_rows
                                   (st\<lparr> outs := ws', files := fl', rows_processed := n,
                                        calls := calls st @
                                          (if progress_cb then [progress_call total_rows n]
                                           else []) \<rparr>) chs)))))"

text \<open>
  A run ends by returning the list of output paths, or by an exception; either way the
  disk and the progress calls made so far are what an observer sees.
\<close>

datatype run = Completed "string list" disk "(rat \<times> string) list"
             | Failed error disk "(rat \<times> string) list"

definition writer_paths :: "writers \<Rightarrow> string list" where
  "writer_paths ws = (case ws of Single w \<Rightarrow> paths w | Dual c0 c1 \<Rightarrow> paths c0 @ paths c1)"

definition make_writers ::
    "bool \<Rightarrow> string option \<Rightarrow> string option \<Rightarrow> string option \<Rightarrow> int \<Rightarrow> string list
       \<Rightarrow> error + writers" where
  "make_writers split_mode out_one out_can1 out_can2 limit cols =
     (if split_mode
      then (case out_can1 of
              None \<Rightarrow> Inl ValueError
            | Some p1 \<Rightarrow>
                (case out_can2 of
                   None \<Rightarrow> Inl ValueError
                 | Some p2 \<Rightarrow> Inr (Dual (new_writer p1 limit cols) (new_writer p2 limit cols))))
      else (case out_one of
              None \<Rightarrow> Inl ValueError
            | Some p \<Rightarrow> Inr (Single (new_writer p limit cols))))"

text \<open>
  \<open>_stream_decode\<close>. The input file enters as the chunks its reader yields, the number
  of lines of the file (\<open>None\<close> when it cannot be opened for the estimate) and the disk
  before the run; \<open>progress_cb\<close> says whether a callback was given.
\<close>

definition stream_decode ::
    "chunk list \<Rightarrow> nat option \<Rightarrow> disk \<Rightarrow> bool \<Rightarrow> string option \<Rightarrow> bool \<Rightarrow> string option
       \<Rightarrow> string option \<Rightarrow> string option \<Rightarrow> int \<Rightarrow> bool \<Rightarrow> run option" where
  "stream_decode input line_count disk0 include_bits channel split_mode out_one out_can1
       out_can2 limit progress_cb =
     (let cols = known_columns include_bits;
          total_rows = (if progress_cb then estimate_total_rows line_count else 0);
          calls0 = (if progress_cb then [(0, ''Starting decode'')] else [])
      in (case make_writers split_mode out_one out_can1 out_can2 limit cols of
            Inl e \<Rightarrow> Some (Failed e disk0 calls0)
          | Inr ws \<Rightarrow>
              (case chunk_loop include_bits channel progress_cb total_rows
                      \<lparr> outs = ws, files = disk0, rows_processed = 0, calls = calls0 \<rparr> input of
                 None \<Rightarrow> None
               | Some (raised, st) \<Rightarrow>
                   (case raised of
                      Some e \<Rightarrow> Some (Failed e (files st) (calls st))
                    | None \<Rightarrow>
                        Some (Completed (writer_paths (outs st)) (files st)
                                (calls st @ (if progress_cb then [(1, ''Decoding complete'')]
                                             else [])))))))"

definition decode_csv_one ::
    "chunk list \<Rightarrow> nat option \<Rightarrow> disk \<Rightarrow> string \<Rightarrow> bool \<Rightarrow> string option \<Rightarrow> int \<Rightarrow> bool
       \<Rightarrow> run option" where
  "decode_csv_one input line_count disk0 output_csv include_bits channel limit progress_cb =
     stream_decode input line_count disk0 include_bits channel False (Some output_csv)
       None None limit progress_cb"

definition decode_csv_split ::
    "chunk list \<Rightarrow> nat option \<Rightarrow> disk \<Rightarrow> string \<Rightarrow> string \<Rightarrow> bool \<Rightarrow> string option \<Rightarrow> int
       \<Rightarrow> bool \<Rightarrow> run option" where
  "decode_csv_split input line_count disk0 out_can1_csv out_can2_csv include_bits channel
       limit progress_cb =
     stream_decode input line_count disk0 include_bits channel True None
       (Some out_can1_csv) (Some out_can2_csv) limit progress_cb"

text \<open>
  The in-memory engine \<open>decode_to_dataframe\<close> starts by normalising the column names
  of the whole file and refusing a header without \<open>id\<close> or \<open>data\<close>; only this guard
  of it is modelled, as the columns it lets through.
\<close>

definition decode_to_dataframe_columns :: "string list \<Rightarrow> error + string list" where
  "decode_to_dataframe_columns header =
     (let cols = norm_columns header
      in if \<not> (''id'' \<in> set cols \<and> ''data'' \<in> set cols) then Inl ValueError
         else Inr cols)"

section \<open>Notions used in the properties\<close>

text \<open>
  The checksum as the specification words it: the low byte of the broadcast id plus 8
  plus the sum of the payload bytes 0 up to (not including) 7, the checksum byte itself
  being byte 7.
\<close>

definition spec_checksum :: "int \<Rightarrow> byte list \<Rightarrow> int" where
  "spec_checksum broadcast_id payload =
     (broadcast_id + 8 + sum_list (map uint (take 7 payload))) mod 256"

text \<open>The \<open>checksum_ok\<close> field of the single record a decoder call returned.\<close>

definition checksum_flag :: "error + rec list \<Rightarrow> pyval option" where
  "checksum_flag res = (case res of Inr [r] \<Rightarrow> map_of r ''checksum_ok'' | _ \<Rightarrow> None)"


text \<open>The id and the padded payload text the engine reads from a row.\<close>

definition row_id :: "string list \<Rightarrow> string list \<Rightarrow> int option" where
  "row_id cols r = parse_can_id (py_strip (cell_or cols r ''id'' []))"

definition row_data :: "string list \<Rightarrow> string list \<Rightarrow> string" where
  "row_data cols r = pad_data (cell_or cols r ''data'' [])"

text \<open>A row is malformed when its id text does not parse or its payload text is not
  hexadecimal.\<close>

definition malformed :: "string list \<Rightarrow> string list \<Rightarrow> bool" where
  "malformed cols r = (row_id cols r = None \<or> fromhex (row_data cols r) = None)"

definition malformed_count :: "chunk list \<Rightarrow> nat" where
  "malformed_count input =
     sum_list (map (\<lambda>ch. length (filter (malformed (norm_columns (fst ch))) (snd ch))) input)"

definition lacks_id_or_data :: "chunk \<Rightarrow> bool" where
  "lacks_id_or_data ch =
     (''id'' \<notin> set (norm_columns (fst ch)) \<or> ''data'' \<notin> set (norm_columns (fst ch)))"

definition start_call :: "bool \<Rightarrow> (rat \<times> string) list" where
  "start_call progress_cb = (if progress_cb then [(0, ''Starting decode'')] else [])"

definition final_call :: "bool \<Rightarrow> (rat \<times> string) list" where
  "final_call progress_cb = (if progress_cb then [(1, ''Decoding complete'')] else [])"

text \<open>The progress calls of a run, their fractions, and whether the run completed.\<close>

definition run_calls :: "run \<Rightarrow> (rat \<times> string) list" where
  "run_calls res = (case res of Completed ps d cs \<Rightarrow> cs | Failed e d cs \<Rightarrow> cs)"

definition fractions :: "run \<Rightarrow> rat list" where
  "fractions res = map fst (run_calls res)"

definition completed :: "run \<Rightarrow> bool" where
  "completed res = (case res of Completed ps d cs \<Rightarrow> True | Failed e d cs \<Rightarrow> False)"

text \<open>The fractions reported while the input is processed: all of them but the last of a
  completed run.\<close>

definition during :: "run \<Rightarrow> rat list" where
  "during res = (if completed res then butlast (fractions res) else fractions res)"

subsection \<open>Streams on disk\<close>

text \<open>The path of part \<open>k\<close> of a writer's stream (\<open>_path\<close> with \<open>self.part = k\<close>).\<close>

definition path_at :: "writer \<Rightarrow> nat \<Rightarrow> string" where
  "path_at w k = writer_path (w\<lparr> part := k \<rparr>)"

text \<open>A well-formed part: the header line once, then one data line per record.\<close>

definition part_file :: "string list \<Rightarrow> rec list \<Rightarrow> line list" where
  "part_file cols rs = Header cols # map (\<lambda>r. Data (reindex cols r)) rs"

text \<open>
  \<open>laid_out w fl cs\<close>: the writer \<open>w\<close> has written the records of \<open>cs\<close>, part by
  part: its path list is the paths of parts 1 to \<open>length cs\<close>, the file of part
  \<open>k + 1\<close> on the disk \<open>fl\<close> is the well-formed part of \<open>cs ! k\<close>, every part but the last
  holds exactly \<open>row_limit\<close> records and the last at most that many, and the counters of
  the writer say so. With no record written the writer is as constructed.
\<close>

definition laid_out :: "writer \<Rightarrow> disk \<Rightarrow> rec list list \<Rightarrow> bool" where
  "laid_out w fl cs =
     (1 \<le> row_limit w \<and>
      (if cs = []
       then \<not> header_written w \<and> part w = 1 \<and> count_in_part w = 0 \<and> paths w = []
       else header_written w \<and> part w = length cs
            \<and> count_in_part w = int (length (last cs))
            \<and> paths w = map (path_at w) [1..<length cs + 1]
            \<and> list_all (\<lambda>c. int (length c) = row_limit w) (butlast cs)
            \<and> int (length (last cs)) \<le> row_limit w
            \<and> list_all (\<lambda>k. map_of fl (path_at w (k + 1)) = Some (part_file (columns w) (cs ! k)))
                 [0..<length cs]))"

text \<open>Between two calls of \<open>write_df\<close> the last part is never empty.\<close>

definition holds :: "writer \<Rightarrow> disk \<Rightarrow> rec list list \<Rightarrow> bool" where
  "holds w fl cs = (laid_out w fl cs \<and> (cs = [] \<or> last cs \<noteq> []))"

text \<open>Successive calls of \<open>write_df\<close> on one writer, one per batch.\<close>

fun write_all :: "writer \<Rightarrow> disk \<Rightarrow> rec list list \<Rightarrow> (writer \<times> disk) option" where
  "write_all w fl [] = Some (w, fl)"
| "write_all w fl (df # dfs) =
     (case write_df w fl df of None \<Rightarrow> None | Some (w', fl') \<Rightarrow> write_all w' fl' dfs)"

text \<open>Two writers whose streams share no file path.\<close>

definition disjoint_paths :: "writer \<Rightarrow> writer \<Rightarrow> bool" where
  "disjoint_paths c0 c1 = (\<forall>i j. path_at c0 i \<noteq> path_at c1 j)"

text \<open>The line of a record is in one of the files of a writer's stream.\<close>

definition in_stream :: "writer \<Rightarrow> disk \<Rightarrow> rec \<Rightarrow> bool" where
  "in_stream w fl rcd =
     list_ex (\<lambda>p. case map_of fl p of
                    Some ls \<Rightarrow> Data (reindex (columns w) rcd) \<in> set ls
                  | None \<Rightarrow> False) (paths w)"

section \<open>Verified properties\<close>

subsection \<open>Helper facts\<close>

lemma and_255_mod: "(x::int) AND 0xFF = x mod 256"
proof -
  have "x AND mask 8 = x mod 2 ^ 8"
    by (simp flip: take_bit_eq_mask add: take_bit_eq_mod)
  then show ?thesis by (simp add: mask_eq_exp_minus_1)
qed

lemma compute_checksum_spec: "compute_checksum cid d = spec_checksum cid d"
  by (simp add: compute_checksum_def spec_checksum_def and_255_mod)

lemma map_of_dict_update:
  "k \<notin> fst ` set kvs \<Longrightarrow> map_of (dict_update r kvs) k = map_of r k"
  unfolding dict_update_def
  by (induction kvs arbitrary: r) (auto simp: update_conv')

lemma expand_bits_bytes_keys:
  "k \<in> fst ` set (expand_bits_bytes d) \<Longrightarrow> hd k = CHR ''b''"
  by (auto simp: expand_bits_bytes_def)

lemma checksum_flag_avolt:
  assumes "length d = 8"
  shows "checksum_flag (decode_or_avolt ts cid d ib) =
           Some (VBool (uint (d ! 7) = spec_checksum cid d))"
proof -
  have nk: "''checksum_ok'' \<notin> fst ` set (expand_bits_bytes d)"
    using expand_bits_bytes_keys[of "''checksum_ok''" d] by auto
  show ?thesis using assms
    by (simp add: decode_or_avolt_def checksum_flag_def Let_def head_fields_def
        map_of_dict_update[OF nk] compute_checksum_spec byte_at_def)
qed

lemma sum_list_update_int:
  "i < length xs \<Longrightarrow> sum_list (map f (xs[i := v])) = sum_list (map f xs) - f (xs ! i) + (f v :: int)"
  by (induction xs arbitrary: i) (auto split: nat.splits)

lemma flip_changes:
  assumes "length d = 8" "i < 8" "v \<noteq> d ! i" "uint (d ! 7) = spec_checksum cid d"
  shows "uint ((d[i := v]) ! 7) \<noteq> spec_checksum cid (d[i := v])"
proof (cases "i = 7")
  case True
  then have "take 7 (d[i := v]) = take 7 d" by simp
  then have "spec_checksum cid (d[i := v]) = spec_checksum cid d"
    by (simp add: spec_checksum_def)
  moreover have "uint v \<noteq> uint (d ! 7)" using assms True by (simp add: word_uint_eq_iff)
  ultimately show ?thesis using assms True by simp
next
  case False
  then have i7: "i < 7" using assms by simp
  have same: "(d[i := v]) ! 7 = d ! 7" using False by simp
  let ?s = "sum_list (map uint (take 7 d))"
  have tk: "take 7 (d[i := v]) = (take 7 d)[i := v]" by (simp add: take_update_swap)
  have "sum_list (map uint (take 7 (d[i := v]))) = ?s - uint (d ! i) + uint v"
    using i7 assms(1) by (simp add: tk sum_list_update_int)
  then have "cid + 8 + sum_list (map uint (take 7 (d[i := v]))) = cid + 8 + ?s + (uint v - uint (d ! i))"
    by arith
  then have new: "spec_checksum cid (d[i := v]) = (cid + 8 + ?s + (uint v - uint (d ! i))) mod 256"
    unfolding spec_checksum_def by (rule arg_cong)
  have ne: "uint v \<noteq> uint (d ! i)" using assms by (simp add: word_uint_eq_iff)
  have b1: "0 \<le> uint v" "uint v < 256" "0 \<le> uint (d ! i)" "uint (d ! i) < 256"
    using uint_lt2p[of v] uint_lt2p[of "d ! i"] by simp_all
  define x where "x = uint v - uint (d ! i)"
  define A where "A = cid + 8 + ?s"
  have xb: "x \<noteq> 0" "- 256 < x" "x < 256" unfolding x_def using ne b1 by arith+
  have "(A + x) mod 256 \<noteq> A mod 256"
  proof
    assume "(A + x) mod 256 = A mod 256"
    then have "(256::int) dvd (A + x) - A" by (simp only: mod_eq_dvd_iff)
    then have "(256::int) dvd x" by simp
    then obtain k where "x = 256 * k" by (auto simp: dvd_def)
    then show False using xb by arith
  qed
  then have "(cid + 8 + ?s + (uint v - uint (d ! i))) mod 256 \<noteq> (cid + 8 + ?s) mod 256"
    by (simp add: A_def x_def)
  then show ?thesis using assms(4) same new by (simp add: spec_checksum_def)
qed


subsection \<open>Cell-broadcast checksum\<close>

text \<open>
  C2. For every cell-broadcast frame (id \<open>OR_AVOLT\<close> = 0x6B4) with an 8-byte payload
  \<open>d\<close>, the decoder returns one record, never an error, whose \<open>checksum_ok\<close> is true
  exactly when the transmitted byte \<open>d[7]\<close> equals the low byte of the id plus 8 plus the
  sum of the first seven payload bytes. Hence a correctly computed checksum byte decodes
  as true, and replacing any single byte of such a payload by a different value makes the
  flag false.
\<close>

theorem avolt_checksum_ok_iff:
  assumes "length d = 8"
  shows "dispatch ts OR_AVOLT d = map_sum id Some (decode_or_avolt ts OR_AVOLT d False)
       \<and> checksum_flag (decode_or_avolt ts OR_AVOLT d ib) =
           Some (VBool (uint (d ! 7) = spec_checksum OR_AVOLT d))
       \<and> (\<forall>i v. i < 8 \<and> v \<noteq> d ! i
              \<and> checksum_flag (decode_or_avolt ts OR_AVOLT d ib) = Some (VBool True)
            \<longrightarrow> checksum_flag (decode_or_avolt ts OR_AVOLT (d[i := v]) ib) = Some (VBool False))"
proof (intro conjI allI impI)
  show "dispatch ts OR_AVOLT d = map_sum id Some (decode_or_avolt ts OR_AVOLT d False)"
    by (simp add: dispatch_def DECODERS_EXACT_def OR_AVOLT_def OR_SVOLT_def OR_PACK_def
        OR_STEMP_def OR_FLAGS_def OR_CAN_BASE_def)
  show "checksum_flag (decode_or_avolt ts OR_AVOLT d ib) =
          Some (VBool (uint (d ! 7) = spec_checksum OR_AVOLT d))"
    by (rule checksum_flag_avolt [OF assms])
next
  fix i v
  assume h: "i < 8 \<and> v \<noteq> d ! i
     \<and> checksum_flag (decode_or_avolt ts OR_AVOLT d ib) = Some (VBool True)"
  then have ok: "uint (d ! 7) = spec_checksum OR_AVOLT d"
    by (simp add: checksum_flag_avolt [OF assms])
  have len: "length (d[i := v]) = 8" using assms by simp
  have "uint ((d[i := v]) ! 7) \<noteq> spec_checksum OR_AVOLT (d[i := v])"
    using flip_changes [OF assms _ _ ok, of i v] h by simp
  then show "checksum_flag (decode_or_avolt ts OR_AVOLT (d[i := v]) ib) = Some (VBool False)"
    by (simp add: checksum_flag_avolt [OF len])
qed

theorem avolt_checksum_ok_iff_witness:
  "length [1, 2, 3, 4, 5, 6, 7, 216 :: byte] = 8
   \<and> checksum_flag (decode_or_avolt ''t'' OR_AVOLT [1, 2, 3, 4, 5, 6, 7, 216] False)
       = Some (VBool True)
   \<and> checksum_flag (decode_or_avolt ''t'' OR_AVOLT [1, 2, 9, 4, 5, 6, 7, 216] False)
       = Some (VBool False)"
proof -
  have l: "length [1, 2, 3, 4, 5, 6, 7, 216 :: byte] = 8" by simp
  have s: "spec_checksum OR_AVOLT [1, 2, 3, 4, 5, 6, 7, 216] = 216"
    by (simp add: spec_checksum_def OR_AVOLT_def OR_CAN_BASE_def)
  have u: "[1, 2, 3, 4, 5, 6, 7, 216 :: byte][2 := 9] = [1, 2, 9, 4, 5, 6, 7, 216]"
    by simp
  note th = avolt_checksum_ok_iff [OF l, of "''t''" False]
  have a: "checksum_flag (decode_or_avolt ''t'' OR_AVOLT [1, 2, 3, 4, 5, 6, 7, 216] False)
       = Some (VBool True)"
    using th [THEN conjunct2, THEN conjunct1] s by simp
  have b: "checksum_flag (decode_or_avolt ''t'' OR_AVOLT [1, 2, 9, 4, 5, 6, 7, 216] False)
       = Some (VBool False)"
    using th [THEN conjunct2, THEN conjunct2, rule_format, of 2 9] a u by simp
  show ?thesis using l a b by simp
qed

lemma floats_le_inf: "floats_le [0, 0, 0x80, 0x7F, 0, 0, 0, 0] = Inr (0, 0x7F800000)"
  by (simp add: floats_le_def word32_le_def u32_le_def)

lemma int_round_inf: "int_round_f32 0x7F800000 = Inl OverflowError"
  by (simp add: int_round_f32_def Let_def)

lemma decode_bp_inf: "decode_bp ts 0x581 [0, 0, 0x80, 0x7F, 0, 0, 0, 0] = Inl OverflowError"
  by (simp add: decode_bp_def Let_def floats_le_inf int_round_inf offset_name_def
      BP_OFFSETS_def BP_CAN_BASE_def)

lemmas id_consts = OR_SVOLT_def OR_PACK_def OR_STEMP_def OR_FLAGS_def OR_AVOLT_def
  OR_ATEMP_def OR_CAN_BASE_def THERM_GENERAL_def THERM_ADDRCLAIM_def MPPT_CAN_ONOFF_def
  MPPT_CAN_BASE_def MC_CAN_BASE1_def MC_CAN_BASE2_def DC_CAN_BASE_def STW_CAN_BASE_def
  BP_CAN_BASE_def

lemma dispatch_bp: "dispatch ts 0x581 d = map_sum id Some (decode_bp ts 0x581 d)"
  by (simp add: dispatch_def DECODERS_EXACT_def decode_dynamic_def id_consts)


lemma rr1: "parse_can_id ''581'' = Some 0x581" by code_simp
lemma rr2: "py_strip ''581'' = ''581''" by code_simp
lemma rr3: "fromhex (pad_data ''0000807F00000000'') = Some [0, 0, 0x80, 0x7F, 0, 0, 0, 0]"
  by code_simp

lemma row_bp: "row_records False [''id'', ''data''] [''581'', ''0000807F00000000''] = Inl OverflowError"
  by (simp add: row_records_def cell_or_def row_get_def rr1 rr2 rr3 Let_def
      decoded_records_def dispatch_bp decode_bp_inf)


lemma norm_id_data: "norm_columns [''id'', ''data''] = [''id'', ''data'']" by code_simp

lemma run_bp:
  "decode_csv_one [([''id'', ''data''], [[''581'', ''0000807F00000000'']])] lc disk0 out
      False None rlim cb = Some (Failed OverflowError disk0 (start_call cb))"
  by (simp add: decode_csv_one_def stream_decode_def make_writers_def Let_def norm_id_data
      filter_channel_def row_bp start_call_def)

lemma parse_empty: "parse_can_id [] = None" by code_simp
lemma strip_empty: "py_strip [] = []" by code_simp

lemma row_records_eq:
  "row_records ib cols r =
     (case row_id cols r of None \<Rightarrow> Inr []
      | Some cid \<Rightarrow>
          (case fromhex (row_data cols r) of None \<Rightarrow> Inr []
           | Some b \<Rightarrow> decoded_records ib (cell_or cols r ''timestamp'' [])
                        (row_get cols r ''channel'') cid (row_data cols r) b))"
  by (auto simp: row_records_def row_id_def row_data_def Let_def parse_empty split: option.splits)

lemma has_b_key: "k \<in> fst ` set (expand_bits_bytes d) \<Longrightarrow> hd k = CHR ''b''"
  by (auto simp: expand_bits_bytes_def)

lemma map_of_with_extras:
  assumes "hd k \<noteq> CHR ''b''" "k \<noteq> ''channel''"
  shows "map_of (with_extras ib d chan row) k = map_of row k"
proof -
  have nk: "k \<notin> fst ` set (expand_bits_bytes d)" using has_b_key assms(1) by blast
  show ?thesis using assms(2)
    by (cases chan) (simp_all add: with_extras_def Let_def map_of_dict_update[OF nk] update_conv')
qed

lemma map_of_with_extras_channel:
  "map_of (with_extras ib d None row) ''channel'' = map_of row ''channel''"
proof -
  have nk: "''channel'' \<notin> fst ` set (expand_bits_bytes d)" using has_b_key[of "''channel''" d] by auto
  show ?thesis by (simp add: with_extras_def Let_def map_of_dict_update[OF nk])
qed

text \<open>
  C6 (as amended). A row whose id text does not parse, or whose payload text is not
  hexadecimal, raises nothing and appends no record; the row loop goes on with the next
  row from the same writers, disk and buffer. No counter of such rows is kept.
\<close>

theorem malformed_row_skipped:
  assumes "malformed cols r"
  shows "row_records ib cols r = Inr []
       \<and> (length buf < FLUSH_EVERY \<longrightarrow>
            row_loop ib cols ws fl buf (r # rs) = row_loop ib cols ws fl buf rs)"
proof -
  have a: "row_records ib cols r = Inr []"
    using assms by (auto simp: row_records_eq malformed_def split: option.splits)
  then show ?thesis by simp
qed

lemma chunk_loop_lacking:
  "list_all lacks_id_or_data input \<Longrightarrow>
   \<exists>n. chunk_loop ib ch cb tot st input = Some (None, st\<lparr> rows_processed := n \<rparr>)"
proof (induction input arbitrary: st)
  case Nil
  have "st = st\<lparr> rows_processed := rows_processed st \<rparr>" by simp
  then show ?case by (metis chunk_loop.simps(1))
next
  case (Cons c cs)
  then have l: "lacks_id_or_data c" and r: "list_all lacks_id_or_data cs" by simp_all
  let ?st = "st\<lparr> rows_processed := rows_processed st +
      length (filter_channel ch (norm_columns (fst c)) (snd c)) \<rparr>"
  from Cons.IH[OF r, of ?st] obtain n where
    "chunk_loop ib ch cb tot ?st cs = Some (None, ?st\<lparr> rows_processed := n \<rparr>)" by blast
  then show ?case using l by (auto simp: lacks_id_or_data_def Let_def)
qed

lemma lacking_one:
  assumes "list_all lacks_id_or_data input"
  shows "decode_csv_one input lc disk0 out ib ch rlim cb =
           Some (Completed [] disk0 (start_call cb @ final_call cb))"
proof -
  let ?st = "\<lparr> outs = Single (new_writer out rlim (known_columns ib)), files = disk0,
               rows_processed = 0, calls = start_call cb \<rparr>"
  obtain n where "chunk_loop ib ch cb (if cb then estimate_total_rows lc else 0) ?st input
      = Some (None, ?st\<lparr> rows_processed := n \<rparr>)"
    using chunk_loop_lacking[OF assms] by blast
  then show ?thesis
    by (simp add: decode_csv_one_def stream_decode_def make_writers_def Let_def
        start_call_def final_call_def writer_paths_def new_writer_def)
qed

lemma lacking_split:
  assumes "list_all lacks_id_or_data input"
  shows "decode_csv_split input lc disk0 out1 out2 ib ch rlim cb =
           Some (Completed [] disk0 (start_call cb @ final_call cb))"
proof -
  let ?st = "\<lparr> outs = Dual (new_writer out1 rlim (known_columns ib))
                           (new_writer out2 rlim (known_columns ib)), files = disk0,
               rows_processed = 0, calls = start_call cb \<rparr>"
  obtain n where "chunk_loop ib ch cb (if cb then estimate_total_rows lc else 0) ?st input
      = Some (None, ?st\<lparr> rows_processed := n \<rparr>)"
    using chunk_loop_lacking[OF assms] by blast
  then show ?thesis
    by (simp add: decode_csv_split_def stream_decode_def make_writers_def Let_def
        start_call_def final_call_def writer_paths_def new_writer_def)
qed

lemma lacks_example: "list_all lacks_id_or_data [([''timestamp''], [[''0.1'']])]"
  by code_simp

text \<open>
  C3 fails on the code. The header \<open>timestamp\<close> has neither an \<open>id\<close> nor a \<open>data\<close>
  column: the in-memory engine \<open>decode_to_dataframe\<close> refuses it with a \<open>ValueError\<close>,
  as the claim says, but both streaming entry points skip every chunk and complete
  normally, writing no file and returning no output path.
\<close>

theorem missing_columns_not_refused:
  "decode_to_dataframe_columns [''timestamp''] = Inl ValueError
   \<and> decode_csv_one [([''timestamp''], [[''0.1'']])] (Some 2) [] ''out.csv'' False None
       EXCEL_XLSX_MAX_ROWS False = Some (Completed [] [] [])
   \<and> decode_csv_split [([''timestamp''], [[''0.1'']])] (Some 2) [] ''a.csv'' ''b.csv'' False
       None EXCEL_XLSX_MAX_ROWS False = Some (Completed [] [] [])"
proof -
  have "decode_to_dataframe_columns [''timestamp''] = Inl ValueError" by code_simp
  then show ?thesis
    using lacking_one [OF lacks_example, of "Some 2" "[]" "''out.csv''" False None
        EXCEL_XLSX_MAX_ROWS False]
      lacking_split [OF lacks_example, of "Some 2" "[]" "''a.csv''" "''b.csv''" False None
        EXCEL_XLSX_MAX_ROWS False]
    by (simp add: start_call_def final_call_def)
qed

lemma malformed_example: "malformed [''id'', ''data''] [''zz'', ''00'']"
  by code_simp

theorem malformed_row_skipped_witness:
  "malformed [''id'', ''data''] [''zz'', ''00'']
   \<and> row_records False [''id'', ''data''] [''zz'', ''00''] = Inr []
   \<and> row_loop False [''id'', ''data''] (Single (new_writer ''o.csv'' 10 [])) [] []
         ([''zz'', ''00''] # [])
       = row_loop False [''id'', ''data''] (Single (new_writer ''o.csv'' 10 [])) [] [] []"
  using malformed_example
    malformed_row_skipped [OF malformed_example, of False "[]"
      "Single (new_writer ''o.csv'' 10 [])" "[]" "[]"]
  by (simp add: FLUSH_EVERY_def)


lemma row_get_absent: "k \<notin> set cols \<Longrightarrow> row_get cols r k = None"
  by (auto simp: row_get_def map_of_eq_None_iff dest: set_zip_leftD)

lemma dispatch_addrclaim:
  "dispatch ts THERM_ADDRCLAIM d = map_sum id Some (decode_therm_addrclaim ts THERM_ADDRCLAIM d)"
  by (simp add: dispatch_def DECODERS_EXACT_def id_consts)

lemma ac_ex1: "row_id [''id'', ''data''] [''18EEFF80'', ''0102030405060708''] = Some THERM_ADDRCLAIM"
  unfolding THERM_ADDRCLAIM_def by code_simp


lemma ac_ex2: "fromhex (row_data [''id'', ''data''] [''18EEFF80'', ''0102030405060708''])
     = Some [1, 2, 3, 4, 5, 6, 7, 8]"
  by code_simp

lemma ac_ex3:
  "\<exists>rcd. row_records False [''id'', ''data''] [''18EEFF80'', ''0102030405060708''] = Inr [rcd]
         \<and> map_of rcd ''channel'' = None"
  by (simp add: row_records_eq ac_ex1 ac_ex2 decoded_records_def dispatch_addrclaim
      decode_therm_addrclaim_def with_extras_def head_fields_def row_get_def)

lemma cx_A: "decode_csv_split [([''id'', ''data'', ''channel''], [[''zz'', ''00'', ''x'']])]
     (Some 2) [] ''a.csv'' ''b.csv'' False None 100 True
   = Some (Completed [] [] [(0, ''Starting decode''), (999 / 1000, ''Processed 1 of 1 rows''),
        (1, ''Decoding complete'')])"
  by code_simp


lemma cx_B: "decode_csv_split [([''id'', ''data'', ''channel''], [[''123'', ''00'', ''x'']])]
     (Some 2) [] ''a.csv'' ''b.csv'' False None 100 True
   = Some (Completed [] [] [(0, ''Starting decode''), (999 / 1000, ''Processed 1 of 1 rows''),
        (1, ''Decoding complete'')])"
  by code_simp

lemma cx_counts:
  "malformed_count [([''id'', ''data'', ''channel''], [[''zz'', ''00'', ''x'']])] = 1
   \<and> malformed_count [([''id'', ''data'', ''channel''], [[''123'', ''00'', ''x'']])] = 0"
  by code_simp

text \<open>
  C6 as stated fails: a run with one malformed row and a run with none end in the same
  result, so the number of skipped rows cannot be read off a finished run.
\<close>

theorem skip_counter_counterexample:
  "decode_csv_split [([''id'', ''data'', ''channel''], [[''zz'', ''00'', ''x'']])]
     (Some 2) [] ''a.csv'' ''b.csv'' False None 100 True
   = decode_csv_split [([''id'', ''data'', ''channel''], [[''123'', ''00'', ''x'']])]
     (Some 2) [] ''a.csv'' ''b.csv'' False None 100 True
   \<and> malformed_count [([''id'', ''data'', ''channel''], [[''zz'', ''00'', ''x'']])] = 1
   \<and> malformed_count [([''id'', ''data'', ''channel''], [[''123'', ''00'', ''x'']])] = 0"
  using cx_A cx_B cx_counts by simp

subsection \<open>Totality of the decoders\<close>

text \<open>
  C4 fails on the code. The id 0x581 lies in the battery-protection range (sub-id
  \<open>BP_VMAX\<close>) and the payload has exactly eight bytes, its low single-precision word
  being plus infinity; \<open>int(round(f_lo))\<close> raises \<open>OverflowError\<close>, which the engine
  does not catch: the run fails.
\<close>

theorem bp_infinity_raises:
  "length [0, 0, 0x80, 0x7F, 0, 0, 0, 0 :: byte] = 8
   \<and> BP_CAN_BASE \<le> 0x581 \<and> 0x581 < BP_CAN_BASE + 0x10
   \<and> decode_bp ts 0x581 [0, 0, 0x80, 0x7F, 0, 0, 0, 0] = Inl OverflowError
   \<and> row_records False [''id'', ''data''] [''581'', ''0000807F00000000''] = Inl OverflowError
   \<and> decode_csv_one [([''id'', ''data''], [[''581'', ''0000807F00000000'']])] lc disk0 out
        False None rlim cb = Some (Failed OverflowError disk0 (start_call cb))"
  using decode_bp_inf row_bp run_bp by (simp add: BP_CAN_BASE_def)

subsection \<open>Progress reports\<close>

lemma fst_progress:
  "tot \<noteq> 0 \<Longrightarrow> fst (progress_call tot n) = min (of_nat n / of_nat tot) (999 / 1000)"
  by (simp add: progress_call_def)

lemma progress_frac_mono:
  "n \<le> m \<Longrightarrow> fst (progress_call tot n) \<le> fst (progress_call tot m)"
proof (cases "tot = 0")
  case True
  then show ?thesis by (simp add: progress_call_def)
next
  case False
  assume "n \<le> m"
  then have "(of_nat n :: rat) / of_nat tot \<le> of_nat m / of_nat tot"
    by (intro divide_right_mono) simp_all
  then have "min ((of_nat n :: rat) / of_nat tot) (999 / 1000)
      \<le> min (of_nat m / of_nat tot) (999 / 1000)"
    by (intro min.mono) simp_all
  then show ?thesis by (simp only: fst_progress[OF False])
qed

lemma progress_frac_bounds:
  "0 \<le> fst (progress_call tot n) \<and> fst (progress_call tot n) \<le> 999 / 1000"
proof (cases "tot = 0")
  case True
  then show ?thesis by (simp add: progress_call_def)
next
  case False
  have "min ((of_nat n :: rat) / of_nat tot) (999 / 1000) \<le> 999 / 1000"
    by (rule min.cobounded2)
  moreover have "0 \<le> min ((of_nat n :: rat) / of_nat tot) (999 / 1000)"
    by (intro min.boundedI) simp_all
  ultimately show ?thesis by (simp only: fst_progress[OF False])
qed

lemma progress_frac_no_estimate: "fst (progress_call 0 n) = 0"
  by (simp add: progress_call_def)

lemma sorted_progress:
  "sorted ns \<Longrightarrow> sorted (map (\<lambda>n. fst (progress_call tot n)) ns)"
  by (induction ns) (auto simp: progress_frac_mono)

lemma chunk_loop_calls:
  "chunk_loop ib ch True tot st input = Some (e, st') \<Longrightarrow>
   \<exists>ns. calls st' = calls st @ map (progress_call tot) ns \<and> sorted ns
        \<and> (\<forall>n\<in>set ns. rows_processed st \<le> n)"
proof (induction input arbitrary: st)
  case Nil
  then show ?case by simp
next
  case (Cons c cs)
  let ?cols = "norm_columns (fst c)"
  let ?rows = "filter_channel ch ?cols (snd c)"
  let ?n = "rows_processed st + length ?rows"
  show ?case
  proof (cases "''id'' \<notin> set ?cols \<or> ''data'' \<notin> set ?cols")
    case True
    then have "chunk_loop ib ch True tot (st\<lparr> rows_processed := ?n \<rparr>) cs = Some (e, st')"
      using Cons.prems by (simp add: Let_def)
    from Cons.IH[OF this] obtain ns where
      "calls st' = calls st @ map (progress_call tot) ns" "sorted ns"
      "\<forall>n\<in>set ns. ?n \<le> n" by auto
    then show ?thesis by (intro exI[of _ ns]) auto
  next
    case False
    then obtain raised ws fl buf where
      rl: "row_loop ib ?cols (outs st) (files st) [] ?rows = Some (raised, ws, fl, buf)"
      using Cons.prems by (auto simp: Let_def split: option.splits)
    show ?thesis
    proof (cases raised)
      case (Some err)
      then have "st' = st\<lparr> outs := ws, files := fl \<rparr>"
        using Cons.prems False rl by (simp add: Let_def)
      then show ?thesis by (intro exI[of _ "[]"]) simp
    next
      case None
      then obtain ws' fl' where fl: "flush ws fl buf = Some (ws', fl')"
        using Cons.prems False rl by (auto simp: Let_def split: option.splits)
      let ?st = "st\<lparr> outs := ws', files := fl', rows_processed := ?n,
                     calls := calls st @ [progress_call tot ?n] \<rparr>"
      have "chunk_loop ib ch True tot ?st cs = Some (e, st')"
        using Cons.prems False rl None fl by (simp add: Let_def)
      from Cons.IH[OF this] obtain ns where
        "calls st' = calls st @ [progress_call tot ?n] @ map (progress_call tot) ns"
        "sorted ns" "\<forall>n\<in>set ns. ?n \<le> n" by auto
      then show ?thesis by (intro exI[of _ "?n # ns"]) auto
    qed
  qed
qed

lemma stream_decode_fractions:
  assumes "stream_decode input lc disk0 ib ch sm o1 o2 o3 rlim True = Some res"
  shows "\<exists>ns. sorted ns \<and>
           fractions res = [0] @ map (\<lambda>n. fst (progress_call (estimate_total_rows lc) n)) ns
                           @ (if completed res then [1] else [])"
proof (cases "make_writers sm o1 o2 o3 rlim (known_columns ib)")
  case (Inl err)
  then have "res = Failed err disk0 [(0, ''Starting decode'')]"
    using assms by (simp add: stream_decode_def Let_def)
  then show ?thesis
    by (intro exI[of _ "[]"]) (simp add: fractions_def run_calls_def completed_def)
next
  case (Inr ws)
  let ?st = "\<lparr> outs = ws, files = disk0, rows_processed = 0,
               calls = [(0, ''Starting decode'')] \<rparr>"
  obtain e st' where cl: "chunk_loop ib ch True (estimate_total_rows lc) ?st input = Some (e, st')"
    using assms Inr by (auto simp: stream_decode_def Let_def split: option.splits)
  from chunk_loop_calls[OF cl] obtain ns where
    ns: "calls st' = [(0, ''Starting decode'')] @ map (progress_call (estimate_total_rows lc)) ns"
    "sorted ns" by auto
  show ?thesis
  proof (cases e)
    case None
    then have "res = Completed (writer_paths (outs st')) (files st')
        (calls st' @ [(1, ''Decoding complete'')])"
      using assms Inr cl by (simp add: stream_decode_def Let_def)
    then show ?thesis using ns
      by (intro exI[of _ ns]) (simp add: fractions_def run_calls_def completed_def comp_def)
  next
    case (Some err)
    then have "res = Failed err (files st') (calls st')"
      using assms Inr cl by (simp add: stream_decode_def Let_def)
    then show ?thesis using ns
      by (intro exI[of _ ns]) (simp add: fractions_def run_calls_def completed_def comp_def)
  qed
qed

text \<open>
  C8. For every run with a progress callback that returns or raises, the reported
  fractions are non-decreasing and start with 0; every fraction reported while the input
  is processed lies in [0, 1) and is 0 when no row estimate is available; and a run that
  completes reports 1 last.
\<close>

theorem progress_fractions:
  assumes "stream_decode input lc disk0 ib ch sm o1 o2 o3 rlim True = Some res"
  shows "fractions res \<noteq> [] \<and> hd (fractions res) = 0 \<and> sorted (fractions res)
       \<and> (\<forall>x\<in>set (during res). 0 \<le> x \<and> x < 1)
       \<and> (estimate_total_rows lc = 0 \<longrightarrow> (\<forall>x\<in>set (during res). x = 0))
       \<and> (completed res \<longrightarrow> last (fractions res) = 1)"
proof -
  let ?f = "\<lambda>n. fst (progress_call (estimate_total_rows lc) n)"
  from stream_decode_fractions[OF assms] obtain ns where s: "sorted ns"
    and fr: "fractions res = [0] @ map ?f ns @ (if completed res then [1] else [])" by blast
  have b: "\<And>n. 0 \<le> ?f n \<and> ?f n \<le> 999 / 1000" by (rule progress_frac_bounds)
  have b1: "?f n \<le> 1" for n
  proof -
    have "?f n \<le> 999 / 1000" using b by blast
    also have "(999 / 1000 :: rat) \<le> 1" by simp
    finally show ?thesis .
  qed
  have b2: "?f n < 1" for n
  proof -
    have "?f n \<le> 999 / 1000" using b by blast
    also have "(999 / 1000 :: rat) < 1" by simp
    finally show ?thesis .
  qed
  have dur: "during res = [0] @ map ?f ns"
    using fr by (simp add: during_def butlast_append)
  have sm: "sorted (map ?f ns)" using s by (rule sorted_progress)
  have "sorted ([0] @ map ?f ns @ (if completed res then [1] else []))"
    using sm b b1 by (auto simp: sorted_append)
  moreover have "\<forall>x\<in>set (during res). 0 \<le> x \<and> x < 1"
    using b b2 by (auto simp: dur)
  moreover have "estimate_total_rows lc = 0 \<longrightarrow> (\<forall>x\<in>set (during res). x = 0)"
    by (auto simp: dur progress_frac_no_estimate)
  ultimately show ?thesis using fr by simp
qed

lemma progress_example:
  "stream_decode [([''id'', ''data''], [[''zz'', ''00'']]), ([''id'', ''data''], [[''zz'', ''00'']])]
     (Some 5) [] False None False (Some ''out.csv'') None None 100 True
   = Some (Completed [] []
       [(0, ''Starting decode''), (1 / 4, ''Processed 1 of 4 rows''),
        (1 / 2, ''Processed 2 of 4 rows''), (1, ''Decoding complete'')])"
  by code_simp

theorem progress_fractions_witness:
  "stream_decode [([''id'', ''data''], [[''zz'', ''00'']]), ([''id'', ''data''], [[''zz'', ''00'']])]
     (Some 5) [] False None False (Some ''out.csv'') None None 100 True
   = Some (Completed [] []
       [(0, ''Starting decode''), (1 / 4, ''Processed 1 of 4 rows''),
        (1 / 2, ''Processed 2 of 4 rows''), (1, ''Decoding complete'')])
   \<and> sorted [0, 1 / 4, 1 / 2, 1 :: rat]
   \<and> list_all (\<lambda>x. 0 \<le> x \<and> x < 1) [0, 1 / 4, 1 / 2 :: rat]"
  using progress_example progress_fractions [OF progress_example]
  by (simp add: fractions_def run_calls_def during_def completed_def)

subsection \<open>Partitioned writer\<close>

lemma digit_lower_code: "d < 10 \<Longrightarrow> (of_char (digit_lower d) :: nat) = 48 + d"
proof -
  assume "d < 10"
  then have "d \<in> {0, 1, 2, 3, 4, 5, 6, 7, 8, 9}" by auto
  then show ?thesis by (auto simp: digit_lower_def)
qed

lemma digit_lower_inj:
  assumes "a < 10" "b < 10" "digit_lower a = digit_lower b"
  shows "a = b"
proof -
  have "(of_char (digit_lower a) :: nat) = of_char (digit_lower b)"
    using assms(3) by (rule arg_cong)
  then have "48 + a = 48 + b"
    unfolding digit_lower_code[OF assms(1)] digit_lower_code[OF assms(2)] .
  then show ?thesis by arith
qed

lemma str_nat_small: "n < 10 \<Longrightarrow> str_nat n = [digit_lower n]"
  by (simp add: str_nat_def)

lemma str_nat_big:
  "\<not> n < 10 \<Longrightarrow> str_nat n = str_nat (n div 10) @ [digit_lower (n mod 10)]"
  by (simp add: str_nat_def)

lemma str_nat_nonempty: "str_nat n \<noteq> []"
  by (cases "n < 10") (simp_all add: str_nat_small str_nat_big)

lemma str_nat_inj: "str_nat n = str_nat m \<Longrightarrow> n = m"
proof (induction n arbitrary: m rule: less_induct)
  case (less n)
  show ?case
  proof (cases "n < 10")
    case True
    then have m: "m < 10"
      using less.prems str_nat_nonempty[of "m div 10"]
      by (cases "m < 10") (auto simp: str_nat_small str_nat_big)
    then show ?thesis using True less.prems digit_lower_inj by (simp add: str_nat_small)
  next
    case False
    then have m: "\<not> m < 10"
      using less.prems str_nat_nonempty[of "n div 10"]
      by (cases "m < 10") (auto simp: str_nat_small str_nat_big)
    from less.prems False m have e: "str_nat (n div 10) = str_nat (m div 10)"
      and d: "digit_lower (n mod 10) = digit_lower (m mod 10)"
      by (simp_all add: str_nat_big)
    have "n div 10 < n" using False by simp
    then have "n div 10 = m div 10" using less.IH e by blast
    moreover have "n mod 10 = m mod 10" using d digit_lower_inj by simp
    ultimately show ?thesis by (metis div_mult_mod_eq)
  qed
qed

lemma path_at_inj: "path_at w i = path_at w j \<Longrightarrow> i = j"
proof -
  assume e: "path_at w i = path_at w j"
  have ne: "base w @ ext w \<noteq> base w @ ''_part'' @ s @ ext w" for s
  proof
    assume "base w @ ext w = base w @ ''_part'' @ s @ ext w"
    then have "length (ext w) = length (''_part'' @ s @ ext w)" by simp
    then show False by simp
  qed
  show ?thesis
  proof (cases "i = 1")
    case True
    then show ?thesis using e ne[of "str_nat j"] by (cases "j = 1") (auto simp: path_at_def writer_path_def)
  next
    case False
    then show ?thesis using e ne[of "str_nat i"] str_nat_inj
      by (cases "j = 1") (auto simp: path_at_def writer_path_def)
  qed
qed

lemma py_slice_take:
  "s \<le> length xs \<Longrightarrow> py_slice xs (int s) (int s + int k) = take k (drop s xs)"
  by (simp add: py_slice_def Let_def min_def)


lemma map_of_to_csv:
  "map_of (to_csv fl p cols rows h a) q =
     (if q = p
      then Some ((if a then (case map_of fl p of Some ls \<Rightarrow> ls | None \<Rightarrow> []) else [])
                 @ (if h then [Header cols] else []) @ map (\<lambda>r. Data (reindex cols r)) rows)
      else map_of fl q)"
  by (simp add: to_csv_def update_conv')

lemma path_at_part: "path_at w (part w) = writer_path w"
  by (simp add: path_at_def)

lemma path_at_cong: "base w' = base w \<Longrightarrow> ext w' = ext w \<Longrightarrow> path_at w' k = path_at w k"
  by (simp add: path_at_def writer_path_def)

lemma path_at_record:
  "path_at \<lparr> base = base w, ext = ext w, row_limit = r, columns = c, part = p,
             count_in_part = n, paths = ps, header_written = h \<rparr> k = path_at w k"
  by (simp add: path_at_def writer_path_def)

lemma write_loop_fit:
  assumes "s < length df" and "0 < row_limit w - count_in_part w"
      and "t = nat (min (row_limit w - count_in_part w) (int (length df) - int s))"
  shows "write_loop df w fl (int s) =
           write_loop df
             \<lparr> base = base w, ext = ext w, row_limit = row_limit w, columns = columns w,
               part = part w, count_in_part = count_in_part w + int t,
               paths = (if writer_path w \<in> set (paths w) then paths w
                        else paths w @ [writer_path w]),
               header_written = True \<rparr>
             (to_csv fl (writer_path w) (columns w) (take t (drop s df))
                (\<not> header_written w) (header_written w))
             (int (s + t))"
proof -
  have tpos: "min (row_limit w - count_in_part w) (int (length df) - int s) = int t"
    using assms by simp
  have sl: "py_slice df (int s) (int s + int t) = take t (drop s df)"
    using assms(1) by (simp add: py_slice_take)
  show ?thesis
    apply (subst write_loop.simps)
    using assms(1,2) tpos sl by (cases w) (simp add: Let_def writer_path_def)
qed

lemma write_loop_roll:
  assumes "s < length df" and "row_limit w - count_in_part w = 0"
  shows "write_loop df w fl (int s) =
           write_loop df
             \<lparr> base = base w, ext = ext w, row_limit = row_limit w, columns = columns w,
               part = part w + 1, count_in_part = 0,
               paths = (if path_at w (part w + 1) \<in> set (paths w) then paths w
                        else paths w @ [path_at w (part w + 1)]),
               header_written = True \<rparr>
             (to_csv fl (path_at w (part w + 1)) (columns w) [] True False)
             (int s)"
proof -
  have sl: "py_slice df (int s) (int s) = []"
    using assms(1) py_slice_take[of s df 0] by simp
  show ?thesis
    apply (subst write_loop.simps)
    using assms sl by (cases w) (simp add: Let_def roll_def path_at_def writer_path_def)
qed


lemma laid_out_files:
  "laid_out w fl cs \<Longrightarrow> k < length cs \<Longrightarrow>
   map_of fl (path_at w (k + 1)) = Some (part_file (columns w) (cs ! k))"
  by (cases "cs = []") (auto simp: laid_out_def list_all_iff)

lemma part_file_append:
  "part_file cols (a @ b) = part_file cols a @ map (\<lambda>r. Data (reindex cols r)) b"
  by (simp add: part_file_def)

lemma laid_out_fit:
  assumes "laid_out w fl cs" and "int (length piece) \<le> row_limit w - count_in_part w"
  shows "laid_out
           \<lparr> base = base w, ext = ext w, row_limit = row_limit w, columns = columns w,
             part = part w, count_in_part = count_in_part w + int (length piece),
             paths = (if writer_path w \<in> set (paths w) then paths w
                      else paths w @ [writer_path w]),
             header_written = True \<rparr>
           (to_csv fl (writer_path w) (columns w) piece
              (\<not> header_written w) (header_written w))
           (if cs = [] then [piece] else butlast cs @ [last cs @ piece])"
    (is "laid_out ?w ?fl ?cs")
proof (cases "cs = []")
  case True
  have pa: "path_at ?w k = path_at w k" for k by (rule path_at_cong) simp_all
  have "writer_path w = path_at w 1" using assms(1) True path_at_part[of w]
    by (simp add: laid_out_def)
  then show ?thesis using assms True
    by (simp add: laid_out_def path_at_record map_of_to_csv part_file_def)
next
  case False
  let ?n = "length cs"
  have n1: "1 \<le> ?n" using False by (cases cs) simp_all
  have hw: "header_written w" and pt: "part w = ?n"
    and cnt: "count_in_part w = int (length (last cs))"
    and ps: "paths w = map (path_at w) [1..<?n + 1]"
    and full: "list_all (\<lambda>c. int (length c) = row_limit w) (butlast cs)"
    and rl: "1 \<le> row_limit w"
    using assms(1) False by (simp_all add: laid_out_def)
  have pa: "path_at ?w k = path_at w k" for k by (rule path_at_cong) simp_all
  have wp: "writer_path w = path_at w ?n" using pt path_at_part[of w] by simp
  have inp: "writer_path w \<in> set (paths w)" using n1 by (simp add: wp ps)
  have lastcs: "cs ! (?n - 1) = last cs" using False by (simp add: last_conv_nth)
  have sn: "?n - 1 + 1 = ?n" using n1 by simp
  have old: "map_of fl (path_at w ?n) = Some (part_file (columns w) (last cs))"
    using laid_out_files[OF assms(1), of "?n - 1"] n1 unfolding sn lastcs by simp
  have len: "length ?cs = ?n" using False n1 by simp
  have files: "map_of ?fl (path_at w (k + 1)) = Some (part_file (columns w) (?cs ! k))"
    if k: "k < ?n" for k
  proof (cases "k = ?n - 1")
    case True
    then have "k + 1 = ?n" using n1 by simp
    moreover have "?cs ! k = last cs @ piece" using True False by (simp add: nth_append)
    ultimately show ?thesis using hw old False
      by (simp add: map_of_to_csv wp part_file_append)
  next
    case neq: False
    then have lt: "k < ?n - 1" using k by simp
    have "path_at w (k + 1) \<noteq> path_at w ?n" using lt path_at_inj[of w "k + 1" ?n] by auto
    moreover have "?cs ! k = cs ! k" using lt False by (simp add: nth_append nth_butlast)
    ultimately show ?thesis using laid_out_files[OF assms(1) k] by (simp add: map_of_to_csv wp)
  qed
  have "list_all (\<lambda>k. map_of ?fl (path_at ?w (k + 1)) = Some (part_file (columns ?w) (?cs ! k)))
          [0..<length ?cs]"
    using files by (simp add: list_all_iff path_at_record len)
  moreover have "paths ?w = map (path_at ?w) [1..<length ?cs + 1]"
    using inp ps by (simp add: len path_at_record)
  ultimately show ?thesis using assms(2) False rl full pt cnt
    by (simp add: laid_out_def)
qed


lemma laid_out_roll:
  assumes "laid_out w fl cs" and "count_in_part w = row_limit w"
  shows "laid_out
           \<lparr> base = base w, ext = ext w, row_limit = row_limit w, columns = columns w,
             part = part w + 1, count_in_part = 0,
             paths = (if path_at w (part w + 1) \<in> set (paths w) then paths w
                      else paths w @ [path_at w (part w + 1)]),
             header_written = True \<rparr>
           (to_csv fl (path_at w (part w + 1)) (columns w) [] True False)
           (cs @ [[]])"
    (is "laid_out ?w ?fl ?cs")
proof -
  have rl: "1 \<le> row_limit w" using assms(1) by (simp add: laid_out_def)
  have ne: "cs \<noteq> []" using assms rl by (auto simp: laid_out_def)
  let ?n = "length cs"
  have pt: "part w = ?n" and cnt: "count_in_part w = int (length (last cs))"
    and ps: "paths w = map (path_at w) [1..<?n + 1]"
    and full: "list_all (\<lambda>c. int (length c) = row_limit w) (butlast cs)"
    using assms(1) ne by (simp_all add: laid_out_def)
  have notin: "path_at w (?n + 1) \<notin> set (paths w)"
  proof -
    have "\<forall>k\<in>set [1..<?n + 1]. path_at w k \<noteq> path_at w (?n + 1)"
    proof (intro ballI notI)
      fix k assume k: "k \<in> set [1..<?n + 1]" and e: "path_at w k = path_at w (?n + 1)"
      from e have "k = ?n + 1" by (rule path_at_inj)
      then show False using k by simp
    qed
    then show ?thesis unfolding ps by (metis (no_types, lifting) imageE list.set_map)
  qed
  have allfull: "list_all (\<lambda>c. int (length c) = row_limit w) cs"
  proof -
    have "cs = butlast cs @ [last cs]" using ne by simp
    then have "list_all (\<lambda>c. int (length c) = row_limit w) cs
        = list_all (\<lambda>c. int (length c) = row_limit w) (butlast cs @ [last cs])" by simp
    then show ?thesis using full cnt assms(2) by simp
  qed
  have files: "map_of ?fl (path_at w (k + 1)) = Some (part_file (columns w) (?cs ! k))"
    if k: "k < ?n + 1" for k
  proof (cases "k = ?n")
    case True
    then show ?thesis by (simp add: map_of_to_csv pt part_file_def)
  next
    case False
    then have lt: "k < ?n" using k by simp
    have "path_at w (k + 1) \<noteq> path_at w (?n + 1)" using lt path_at_inj[of w "k + 1" "?n + 1"] by auto
    then show ?thesis using laid_out_files[OF assms(1) lt] lt
      by (simp add: map_of_to_csv pt nth_append)
  qed
  have "list_all (\<lambda>k. map_of ?fl (path_at ?w (k + 1)) = Some (part_file (columns ?w) (?cs ! k)))
          [0..<length ?cs]"
    using files by (simp add: list_all_iff path_at_record)
  moreover have "paths ?w = map (path_at ?w) [1..<length ?cs + 1]"
    using notin ps by (simp add: pt path_at_record)
  ultimately show ?thesis using rl allfull pt
    by (simp add: laid_out_def)
qed

lemma concat_fit:
  "concat (if cs = [] then [piece] else butlast cs @ [last cs @ piece]) = concat cs @ piece"
proof (cases "cs = []")
  case True
  then show ?thesis by simp
next
  case False
  have "concat (butlast cs) @ last cs = concat (butlast cs @ [last cs])" by simp
  also have "\<dots> = concat cs" using False by simp
  finally show ?thesis using False by simp
qed

lemma write_loop_laid_out:
  assumes "laid_out w fl cs" and "s \<le> length df"
      and "cs \<noteq> [] \<and> last cs = [] \<longrightarrow> s < length df"
  shows "\<exists>w' fl' cs'. write_loop df w fl (int s) = Some (w', fl') \<and> holds w' fl' cs'
           \<and> concat cs' = concat cs @ drop s df
           \<and> base w' = base w \<and> ext w' = ext w \<and> row_limit w' = row_limit w
           \<and> columns w' = columns w
           \<and> (\<forall>q. (\<forall>k. q \<noteq> path_at w k) \<longrightarrow> map_of fl' q = map_of fl q)"
  using assms
proof (induction "2 * (length df - s) + (if row_limit w - count_in_part w \<le> 0 then 1 else 0 :: nat)"
    arbitrary: w fl cs s rule: less_induct)
  case less
  show ?case
  proof (cases "s < length df")
    case False
    then have e: "write_loop df w fl (int s) = Some (w, fl)"
      by (subst write_loop.simps) simp
    have "holds w fl cs" using less.prems False by (auto simp: holds_def)
    then show ?thesis using e False less.prems(2) by auto
  next
    case True
    have rl: "1 \<le> row_limit w" using less.prems(1) by (simp add: laid_out_def)
    have room0: "0 \<le> row_limit w - count_in_part w"
      using less.prems(1) by (cases "cs = []") (auto simp: laid_out_def)
    show ?thesis
    proof (cases "0 < row_limit w - count_in_part w")
      case fit: True
      define t where "t = nat (min (row_limit w - count_in_part w) (int (length df) - int s))"
      define piece where "piece = take t (drop s df)"
      have t1: "1 \<le> t" and tle: "t \<le> length df - s"
        and troom: "int t \<le> row_limit w - count_in_part w"
        using fit True by (simp_all add: t_def)
      have lp: "length piece = t" using tle by (simp add: piece_def)
      define w1 where "w1 = \<lparr> base = base w, ext = ext w, row_limit = row_limit w,
          columns = columns w, part = part w, count_in_part = count_in_part w + int t,
          paths = (if writer_path w \<in> set (paths w) then paths w else paths w @ [writer_path w]),
          header_written = True \<rparr>"
      define fl1 where "fl1 = to_csv fl (writer_path w) (columns w) piece
          (\<not> header_written w) (header_written w)"
      define cs1 where "cs1 = (if cs = [] then [piece] else butlast cs @ [last cs @ piece])"
      have step: "write_loop df w fl (int s) = write_loop df w1 fl1 (int (s + t))"
        unfolding w1_def fl1_def piece_def by (rule write_loop_fit[OF True fit t_def])
      have lo: "laid_out w1 fl1 cs1"
        using laid_out_fit[OF less.prems(1), of piece] troom
        by (simp add: w1_def fl1_def cs1_def lp)
      have pne: "piece \<noteq> []" using lp t1 by auto
      have last1: "cs1 \<noteq> [] \<and> last cs1 \<noteq> []" using pne by (simp add: cs1_def)
      have sle: "s + t \<le> length df" using tle True by simp
      have meas: "2 * (length df - (s + t)) + (if row_limit w1 - count_in_part w1 \<le> 0 then 1 else 0 :: nat)
          < 2 * (length df - s) + (if row_limit w - count_in_part w \<le> 0 then 1 else 0)"
      proof -
        have "length df - (s + t) + 1 \<le> length df - s" using t1 tle True by arith
        then show ?thesis by (auto split: if_splits)
      qed
      from less.hyps[OF meas lo sle] last1
      obtain w' fl' cs' where r: "write_loop df w1 fl1 (int (s + t)) = Some (w', fl')"
        "holds w' fl' cs'" "concat cs' = concat cs1 @ drop (s + t) df"
        "base w' = base w1" "ext w' = ext w1" "row_limit w' = row_limit w1"
        "columns w' = columns w1"
        "\<forall>q. (\<forall>k. q \<noteq> path_at w1 k) \<longrightarrow> map_of fl' q = map_of fl1 q"
        by blast
      have c1: "concat cs1 = concat cs @ piece" unfolding cs1_def by (rule concat_fit)
      have dr: "piece @ drop (s + t) df = drop s df"
        unfolding piece_def by (metis append_take_drop_id drop_drop add.commute)
      have pa: "path_at w1 k = path_at w k" for k by (simp add: w1_def path_at_record)
      have frame: "\<forall>q. (\<forall>k. q \<noteq> path_at w k) \<longrightarrow> map_of fl' q = map_of fl q"
      proof (intro allI impI)
        fix q assume q: "\<forall>k. q \<noteq> path_at w k"
        then have "q \<noteq> writer_path w" using path_at_part[of w] by metis
        then have "map_of fl1 q = map_of fl q" by (simp add: fl1_def map_of_to_csv)
        then show "map_of fl' q = map_of fl q" using r(8) q pa by simp
      qed
      have "concat cs' = concat cs @ drop s df" using r(3) c1 dr by simp
      then show ?thesis using step r frame
        by (intro exI[of _ w'] exI[of _ fl'] exI[of _ cs']) (simp add: w1_def)
    next
      case nofit: False
      then have full: "count_in_part w = row_limit w" and r0: "row_limit w - count_in_part w = 0"
        using room0 by simp_all
      define w1 where "w1 = \<lparr> base = base w, ext = ext w, row_limit = row_limit w,
          columns = columns w, part = part w + 1, count_in_part = 0,
          paths = (if path_at w (part w + 1) \<in> set (paths w) then paths w
                   else paths w @ [path_at w (part w + 1)]),
          header_written = True \<rparr>"
      define fl1 where "fl1 = to_csv fl (path_at w (part w + 1)) (columns w) [] True False"
      have step: "write_loop df w fl (int s) = write_loop df w1 fl1 (int s)"
        unfolding w1_def fl1_def by (rule write_loop_roll[OF True r0])
      have lo: "laid_out w1 fl1 (cs @ [[]])"
        unfolding w1_def fl1_def by (rule laid_out_roll[OF less.prems(1) full])
      have meas: "2 * (length df - s) + (if row_limit w1 - count_in_part w1 \<le> 0 then 1 else 0 :: nat)
          < 2 * (length df - s) + (if row_limit w - count_in_part w \<le> 0 then 1 else 0)"
        using rl r0 by (simp add: w1_def)
      from less.hyps[OF meas lo less.prems(2)] True
      obtain w' fl' cs' where r: "write_loop df w1 fl1 (int s) = Some (w', fl')"
        "holds w' fl' cs'" "concat cs' = concat (cs @ [[]]) @ drop s df"
        "base w' = base w1" "ext w' = ext w1" "row_limit w' = row_limit w1"
        "columns w' = columns w1"
        "\<forall>q. (\<forall>k. q \<noteq> path_at w1 k) \<longrightarrow> map_of fl' q = map_of fl1 q"
        by blast
      have pa: "path_at w1 k = path_at w k" for k by (simp add: w1_def path_at_record)
      have frame: "\<forall>q. (\<forall>k. q \<noteq> path_at w k) \<longrightarrow> map_of fl' q = map_of fl q"
      proof (intro allI impI)
        fix q assume q: "\<forall>k. q \<noteq> path_at w k"
        then have "map_of fl1 q = map_of fl q" by (simp add: fl1_def map_of_to_csv)
        then show "map_of fl' q = map_of fl q" using r(8) q pa by simp
      qed
      show ?thesis using step r frame
        by (intro exI[of _ w'] exI[of _ fl'] exI[of _ cs']) (simp add: w1_def)
    qed
  qed
qed


lemma holds_new: "1 \<le> r \<Longrightarrow> holds (new_writer out r cols) fl []"
  by (simp add: holds_def laid_out_def new_writer_def)

lemma write_df_holds:
  assumes "holds w fl cs"
  shows "\<exists>w' fl' cs'. write_df w fl df = Some (w', fl') \<and> holds w' fl' cs'
           \<and> concat cs' = concat cs @ df
           \<and> base w' = base w \<and> ext w' = ext w \<and> row_limit w' = row_limit w
           \<and> columns w' = columns w
           \<and> (\<forall>q. (\<forall>k. q \<noteq> path_at w k) \<longrightarrow> map_of fl' q = map_of fl q)"
proof (cases "df = []")
  case True
  then show ?thesis using assms by (auto simp: write_df_def)
next
  case False
  have lo: "laid_out w fl cs" and l: "cs \<noteq> [] \<and> last cs = [] \<longrightarrow> 0 < length df"
    using assms by (auto simp: holds_def)
  from write_loop_laid_out[OF lo _ l, of ] False show ?thesis
    by (simp add: write_df_def)
qed

lemma holds_frame:
  assumes "holds w fl cs" and "\<forall>k. map_of fl' (path_at w k) = map_of fl (path_at w k)"
      and "base w' = base w" "ext w' = ext w" "row_limit w' = row_limit w"
          "columns w' = columns w" "part w' = part w" "count_in_part w' = count_in_part w"
          "paths w' = paths w" "header_written w' = header_written w"
  shows "holds w' fl' cs"
proof -
  have pa: "path_at w' k = path_at w k" for k using assms(3,4) by (rule path_at_cong)
  show ?thesis using assms(1,2,5-) by (cases "cs = []") (auto simp: holds_def laid_out_def pa)
qed

lemma holds_disk_frame:
  assumes "holds w fl cs" and "\<forall>q. (\<forall>k. q \<noteq> path_at v k) \<longrightarrow> map_of fl' q = map_of fl q"
      and "\<forall>i j. path_at w i \<noteq> path_at v j"
  shows "holds w fl' cs"
  using assms(1) by (rule holds_frame) (use assms(2,3) in auto)

lemma write_all_holds:
  assumes "holds w fl cs"
  shows "\<exists>w' fl' cs'. write_all w fl dfs = Some (w', fl') \<and> holds w' fl' cs'
           \<and> concat cs' = concat cs @ concat dfs
           \<and> base w' = base w \<and> ext w' = ext w \<and> row_limit w' = row_limit w
           \<and> columns w' = columns w"
  using assms
proof (induction dfs arbitrary: w fl cs)
  case Nil
  then show ?case by auto
next
  case (Cons df dfs)
  from write_df_holds[OF Cons.prems, of df]
  obtain w1 fl1 cs1 where a: "write_df w fl df = Some (w1, fl1)" "holds w1 fl1 cs1"
    "concat cs1 = concat cs @ df" "base w1 = base w" "ext w1 = ext w"
    "row_limit w1 = row_limit w" "columns w1 = columns w" by blast
  from Cons.IH[OF a(2)]
  obtain w' fl' cs' where b: "write_all w1 fl1 dfs = Some (w', fl')" "holds w' fl' cs'"
    "concat cs' = concat cs1 @ concat dfs" "base w' = base w1" "ext w' = ext w1"
    "row_limit w' = row_limit w1" "columns w' = columns w1" by blast
  show ?case using a b by (intro exI[of _ w'] exI[of _ fl'] exI[of _ cs']) simp
qed

lemma holds_in_stream:
  assumes "holds w fl cs" and "rcd \<in> set (concat cs)"
  shows "in_stream w fl rcd"
proof -
  from assms(2) obtain c where c: "c \<in> set cs" "rcd \<in> set c" by auto
  then obtain k where k: "k < length cs" "cs ! k = c" by (auto simp: in_set_conv_nth)
  have ne: "cs \<noteq> []" using c by auto
  have lo: "laid_out w fl cs" using assms(1) by (simp add: holds_def)
  have ps: "paths w = map (path_at w) [1..<length cs + 1]"
    using lo ne by (simp add: laid_out_def)
  have f: "map_of fl (path_at w (k + 1)) = Some (part_file (columns w) c)"
    using laid_out_files[OF lo k(1)] k(2) by simp
  have "k + 1 \<in> set [1..<length cs + 1]" using k(1) by auto
  then have "path_at w (k + 1) \<in> set (paths w)" unfolding ps set_map by (rule imageI)
  moreover have "Data (reindex (columns w) rcd) \<in> set (part_file (columns w) c)"
    using c(2) by (simp add: part_file_def)
  ultimately show ?thesis using f
    unfolding in_stream_def list_ex_iff by (intro bexI[of _ "path_at w (k + 1)"]) simp_all
qed


lemma flush_dual_holds:
  assumes "holds c0 fl cs0" and "holds c1 fl cs1" and "disjoint_paths c0 c1"
  shows "\<exists>c0' c1' fl' cs0' cs1'. flush (Dual c0 c1) fl buf = Some (Dual c0' c1', fl')
           \<and> holds c0' fl' cs0' \<and> holds c1' fl' cs1'
           \<and> concat cs0' = concat cs0 @ fst (split_groups buf)
           \<and> concat cs1' = concat cs1 @ snd (split_groups buf)
           \<and> columns c0' = columns c0 \<and> columns c1' = columns c1
           \<and> disjoint_paths c0' c1'"
proof -
  have dj: "\<forall>i j. path_at c0 i \<noteq> path_at c1 j" using assms(3) by (simp add: disjoint_paths_def)
  from write_df_holds[OF assms(1), of "fst (split_groups buf)"]
  obtain c0' fl1 cs0' where a: "write_df c0 fl (fst (split_groups buf)) = Some (c0', fl1)"
    "holds c0' fl1 cs0'" "concat cs0' = concat cs0 @ fst (split_groups buf)"
    "base c0' = base c0" "ext c0' = ext c0" "columns c0' = columns c0"
    "\<forall>q. (\<forall>k. q \<noteq> path_at c0 k) \<longrightarrow> map_of fl1 q = map_of fl q" by blast
  have h1: "holds c1 fl1 cs1"
    using assms(2) a(7) by (rule holds_disk_frame) (use dj in metis)
  from write_df_holds[OF h1, of "snd (split_groups buf)"]
  obtain c1' fl2 cs1' where b: "write_df c1 fl1 (snd (split_groups buf)) = Some (c1', fl2)"
    "holds c1' fl2 cs1'" "concat cs1' = concat cs1 @ snd (split_groups buf)"
    "base c1' = base c1" "ext c1' = ext c1" "columns c1' = columns c1"
    "\<forall>q. (\<forall>k. q \<noteq> path_at c1 k) \<longrightarrow> map_of fl2 q = map_of fl1 q" by blast
  have pa0: "path_at c0' k = path_at c0 k" for k using a(4,5) by (rule path_at_cong)
  have pa1: "path_at c1' k = path_at c1 k" for k using b(4,5) by (rule path_at_cong)
  have h0: "holds c0' fl2 cs0'"
    using a(2) b(7) by (rule holds_disk_frame) (use dj pa0 in metis)
  have dj': "disjoint_paths c0' c1'" using dj by (simp add: disjoint_paths_def pa0 pa1)
  show ?thesis
  proof (cases "buf = []")
    case True
    then show ?thesis using assms
      by (intro exI[of _ c0] exI[of _ c1] exI[of _ fl] exI[of _ cs0] exI[of _ cs1])
         (simp add: flush_def split_groups_def)
  next
    case False
    then show ?thesis using a b h0 dj'
      by (intro exI[of _ c0'] exI[of _ c1'] exI[of _ fl2] exI[of _ cs0'] exI[of _ cs1'])
         (simp add: flush_def)
  qed
qed


lemma full_lengths:
  "list_all (\<lambda>c. int (length c) = r) xs \<Longrightarrow> map length xs = replicate (length xs) (nat r)"
  by (induction xs) auto

lemma holds_lengths:
  assumes "holds w fl cs" and "cs \<noteq> []"
  shows "map length cs = replicate (length cs - 1) (nat (row_limit w)) @ [length (last cs)]"
    and "1 \<le> length (last cs)" and "int (length (last cs)) \<le> row_limit w"
proof -
  have full: "list_all (\<lambda>c. int (length c) = row_limit w) (butlast cs)"
    and "int (length (last cs)) \<le> row_limit w" and ne: "last cs \<noteq> []"
    using assms by (simp_all add: holds_def laid_out_def)
  then show "int (length (last cs)) \<le> row_limit w" by simp
  show "1 \<le> length (last cs)" using ne by (cases "last cs") simp_all
  have "map length cs = map length (butlast cs @ [last cs])" using assms(2) by simp
  also have "\<dots> = map length (butlast cs) @ [length (last cs)]" by simp
  finally show "map length cs = replicate (length cs - 1) (nat (row_limit w)) @ [length (last cs)]"
    using full_lengths[OF full] by simp
qed

lemma shape_2r5:
  assumes "holds w fl cs" and "5 \<le> row_limit w"
      and "int (length (concat cs)) = 2 * row_limit w + 5"
  shows "map length cs = [nat (row_limit w), nat (row_limit w), 5]"
proof -
  define R where "R = nat (row_limit w)"
  define m where "m = length cs - 1"
  define l where "l = length (last cs)"
  have R5: "5 \<le> R" and rR: "row_limit w = int R" using assms(2) by (simp_all add: R_def)
  have ne: "cs \<noteq> []" using assms(3) assms(2) by auto
  note hl = holds_lengths[OF assms(1) ne]
  have ml: "map length cs = replicate m R @ [l]" using hl(1) by (simp add: R_def m_def l_def)
  have l1: "1 \<le> l" and lR: "l \<le> R" using hl(2,3) rR by (simp_all add: l_def)
  have "length (concat cs) = sum_list (map length cs)" by (simp add: length_concat)
  also have "\<dots> = m * R + l" by (simp add: ml sum_list_replicate)
  finally have tot: "m * R + l = 2 * R + 5" using assms(3) rR by (simp add: nat_int_comparison(1))
  have m2: "m = 2"
  proof (rule ccontr)
    assume "m \<noteq> 2"
    then consider "m = 0" | "m = 1" | "3 \<le> m" by arith
    then show False
    proof cases
      case 1
      then show False using tot lR by simp
    next
      case 2
      then show False using tot lR by simp
    next
      case 3
      then have "3 * R \<le> m * R" by (rule mult_le_mono1)
      then show False using tot l1 R5 by linarith
    qed
  qed
  then have "l = 5" using tot by simp
  then show ?thesis using ml m2 by (simp add: R_def numeral_2_eq_2)
qed

lemma holds_paths:
  assumes "holds w fl cs"
  shows "length (paths w) = length cs" and "distinct (paths w)"
    and "k < length cs \<Longrightarrow> map_of fl (paths w ! k) = Some (part_file (columns w) (cs ! k))"
proof -
  have lo: "laid_out w fl cs" using assms by (simp add: holds_def)
  have ps: "paths w = map (path_at w) [1..<length cs + 1]"
    using lo by (cases "cs = []") (simp_all add: laid_out_def)
  have "length (map (path_at w) [1..<length cs + 1]) = length cs + 1 - 1"
    by (simp only: length_map length_upt)
  then show "length (paths w) = length cs" unfolding ps by simp
  have "inj_on (path_at w) (set [1..<length cs + 1])"
    by (rule inj_onI) (rule path_at_inj)
  then show "distinct (paths w)" unfolding ps by (simp add: distinct_map)
  show "map_of fl (paths w ! k) = Some (part_file (columns w) (cs ! k))" if "k < length cs"
  proof -
    have "length [1..<length cs + 1] = length cs + 1 - 1" by (simp only: length_upt)
    then have lt: "k < length [1..<length cs + 1]" using that by simp
    have "1 + k < length cs + 1" using that by simp
    then have "[1..<length cs + 1] ! k = 1 + k" by (rule nth_upt)
    then have "paths w ! k = path_at w (k + 1)" unfolding ps using lt by (simp only: nth_map add.commute)
    then show ?thesis using laid_out_files[OF lo that] by simp
  qed
qed

text \<open>
  C5 (as amended). For every row limit \<open>r \<ge> 1\<close>, whatever batches are written through
  one fresh writer, every call returns and the files of the stream are distinct, each
  made of the same header line followed by between 1 and \<open>r\<close> data lines, and the
  records of the files, read in the order of the path list, are exactly the records
  written, in order: none lost or duplicated at a roll. When \<open>r \<ge> 5\<close> and \<open>2 r + 5\<close>
  records are written, there are exactly three files, with \<open>r\<close>, \<open>r\<close> and 5 data lines.
\<close>

theorem partitioned_writer_rolls:
  assumes "1 \<le> r"
  shows "\<exists>w' fl' cs. write_all (new_writer out r cols) fl dfs = Some (w', fl')
           \<and> concat cs = concat dfs
           \<and> length (paths w') = length cs \<and> distinct (paths w')
           \<and> (\<forall>k<length cs.
                 map_of fl' (paths w' ! k)
                   = Some (Header cols # map (\<lambda>x. Data (reindex cols x)) (cs ! k))
                 \<and> 1 \<le> length (cs ! k) \<and> int (length (cs ! k)) \<le> r)
           \<and> (5 \<le> r \<and> int (length (concat dfs)) = 2 * r + 5
                \<longrightarrow> map length cs = [nat r, nat r, 5])"
proof -
  from write_all_holds[OF holds_new[OF assms], of out cols fl dfs]
  obtain w' fl' cs where a: "write_all (new_writer out r cols) fl dfs = Some (w', fl')"
    "holds w' fl' cs" "concat cs = concat dfs"
    "row_limit w' = r" "columns w' = cols"
    by (auto simp: new_writer_def)
  note hp = holds_paths[OF a(2)]
  have files: "map_of fl' (paths w' ! k)
                   = Some (Header cols # map (\<lambda>x. Data (reindex cols x)) (cs ! k))
                 \<and> 1 \<le> length (cs ! k) \<and> int (length (cs ! k)) \<le> r" if k: "k < length cs" for k
  proof -
    have ne: "cs \<noteq> []" using k by auto
    note hl = holds_lengths[OF a(2) ne]
    have "length (cs ! k) = map length cs ! k" using k by simp
    also have "\<dots> = (replicate (length cs - 1) (nat r) @ [length (last cs)]) ! k"
      using hl(1) a(4) by simp
    finally have lk: "length (cs ! k) = (if k < length cs - 1 then nat r else length (last cs))"
      using k by (auto simp: nth_append)
    have "1 \<le> length (cs ! k) \<and> int (length (cs ! k)) \<le> r"
      using lk hl(2,3) a(4) assms by (auto split: if_splits)
    then show ?thesis using hp(3)[OF k] a(5) by (simp add: part_file_def)
  qed
  have shape: "5 \<le> r \<and> int (length (concat dfs)) = 2 * r + 5
                \<longrightarrow> map length cs = [nat r, nat r, 5]"
    using shape_2r5[OF a(2)] a(3,4) by auto
  show ?thesis using a(1,3) hp(1,2) files shape
    by (intro exI[of _ w'] exI[of _ fl'] exI[of _ cs]) simp
qed


theorem partitioned_writer_rolls_witness:
  "1 \<le> (5 :: int)
   \<and> (\<exists>w' fl' cs.
         write_all (new_writer ''o.csv'' 5 [''message'']) []
           [replicate 7 [(''message'', VStr ''RAW'')], replicate 8 [(''message'', VStr ''RAW'')]]
           = Some (w', fl')
         \<and> length (paths w') = 3 \<and> map length cs = [5, 5, 5]
         \<and> (\<forall>k<length cs. map_of fl' (paths w' ! k)
               = Some (Header [''message'']
                       # map (\<lambda>x. Data (reindex [''message''] x)) (cs ! k))
               \<and> 1 \<le> length (cs ! k) \<and> int (length (cs ! k)) \<le> 5))"
proof -
  have r: "1 \<le> (5 :: int)" by simp
  let ?dfs = "[replicate 7 [(''message'', VStr ''RAW'')], replicate 8 [(''message'', VStr ''RAW'')]]"
  from partitioned_writer_rolls [OF r, of "''o.csv''" "[''message'']" "[]" ?dfs]
  obtain w' fl' cs where a:
    "write_all (new_writer ''o.csv'' 5 [''message'']) [] ?dfs = Some (w', fl')"
    and b: "length (paths w') = length cs"
    and c: "\<forall>k<length cs. map_of fl' (paths w' ! k)
         = Some (Header [''message''] # map (\<lambda>x. Data (reindex [''message''] x)) (cs ! k))
       \<and> 1 \<le> length (cs ! k) \<and> int (length (cs ! k)) \<le> 5"
    and d: "5 \<le> (5 :: int) \<and> int (length (concat ?dfs)) = 2 * 5 + 5
         \<longrightarrow> map length cs = [nat 5, nat 5, 5]"
    by (elim exE conjE) (rule that, assumption+)
  have e: "map length cs = [5, 5, 5]" using d by simp
  have "length (map length cs) = 3" unfolding e by simp
  then have f: "length (paths w') = 3" using b by simp
  show ?thesis
    by (intro conjI exI[of _ w'] exI[of _ fl'] exI[of _ cs]) (rule r a c e f)+
qed

text \<open>
  C5 as stated fails for row limits below 5: with \<open>r = 1\<close>, writing \<open>2 r + 5 = 7\<close>
  records makes seven files, not three.
\<close>

theorem three_files_counterexample:
  "write_df (new_writer ''o.csv'' 1 [''message'']) []
       (replicate 7 [(''message'', VStr ''RAW'')]) \<noteq> None
   \<and> length (paths (fst (the (write_df (new_writer ''o.csv'' 1 [''message'']) []
                                 (replicate 7 [(''message'', VStr ''RAW'')]))))) = 7
   \<and> length (snd (the (write_df (new_writer ''o.csv'' 1 [''message'']) []
                          (replicate 7 [(''message'', VStr ''RAW'')])))) = 7"
  by code_simp

subsection \<open>Routing and passthrough at a flush\<close>


text \<open>
  C10. In an input without a channel column, every record decoded from a row with the
  thermistor address-claim id 0x18EEFF80 carries the message \<open>THERM_ADDR_CLAIM\<close>, which
  is not in the battery-bus set (the set holds \<open>THERM_ADDRCLAIM\<close>). So the flush of a
  batch without channel tags that holds the record hands it to \<open>writer_c0\<close>, the writer
  of the first output path, and not to \<open>writer_c1\<close>: the flush returns, the first stream
  grows by exactly the records of the batch outside the battery-bus set, the second by
  exactly those inside it, and the line of the record is then in a file of the first
  stream.
\<close>

theorem therm_addrclaim_written_to_c0:
  assumes "row_id cols r = Some THERM_ADDRCLAIM" and "''channel'' \<notin> set cols"
      and "row_records ib cols r = Inr recs" and "rcd \<in> set recs"
      and "rcd \<in> set buf" and "\<not> has_channel buf"
      and "holds c0 fl cs0" and "holds c1 fl cs1" and "disjoint_paths c0 c1"
  shows "map_of rcd ''message'' = Some (VStr ''THERM_ADDR_CLAIM'')
       \<and> ''THERM_ADDR_CLAIM'' \<notin> set can1_msgs \<and> ''THERM_ADDRCLAIM'' \<in> set can1_msgs
       \<and> (\<exists>c0' c1' fl' cs0' cs1'.
             flush (Dual c0 c1) fl buf = Some (Dual c0' c1', fl')
             \<and> holds c0' fl' cs0' \<and> holds c1' fl' cs1'
             \<and> concat cs0' = concat cs0 @ filter (\<lambda>x. \<not> is_c1 x) buf
             \<and> concat cs1' = concat cs1 @ filter is_c1 buf
             \<and> rcd \<in> set (filter (\<lambda>x. \<not> is_c1 x) buf) \<and> rcd \<notin> set (filter is_c1 buf)
             \<and> in_stream c0' fl' rcd)"
proof -
  have ch: "row_get cols r ''channel'' = None" using assms(2) by (rule row_get_absent)
  obtain b where b: "fromhex (row_data cols r) = Some b"
    using assms(1,3,4) by (auto simp: row_records_eq split: option.splits)
  let ?ts = "cell_or cols r ''timestamp'' []"
  have dr: "decoded_records ib ?ts None THERM_ADDRCLAIM (row_data cols r) b = Inr recs"
    using assms(1,3) b ch by (simp add: row_records_eq)
  have len: "\<not> length b < 8"
    using dr by (auto simp: decoded_records_def dispatch_addrclaim decode_therm_addrclaim_def)
  have msg: "map_of rcd ''message'' = Some (VStr ''THERM_ADDR_CLAIM'')"
    using dr len assms(4)
    by (auto simp: decoded_records_def dispatch_addrclaim decode_therm_addrclaim_def
        map_of_with_extras head_fields_def)
  have nc1: "\<not> is_c1 rcd" by (simp add: is_c1_def msg can1_msgs_def)
  have sg: "split_groups buf = (filter (\<lambda>x. \<not> is_c1 x) buf, filter is_c1 buf)"
    using assms(6) by (simp add: split_groups_def)
  from flush_dual_holds[OF assms(7,8,9), of buf]
  obtain c0' c1' fl' cs0' cs1' where f:
    "flush (Dual c0 c1) fl buf = Some (Dual c0' c1', fl')"
    "holds c0' fl' cs0'" "holds c1' fl' cs1'"
    "concat cs0' = concat cs0 @ filter (\<lambda>x. \<not> is_c1 x) buf"
    "concat cs1' = concat cs1 @ filter is_c1 buf"
    unfolding sg fst_conv snd_conv by blast
  have m0: "rcd \<in> set (filter (\<lambda>x. \<not> is_c1 x) buf)" using assms(5) nc1 by simp
  have m1: "rcd \<notin> set (filter is_c1 buf)" using nc1 by simp
  have "rcd \<in> set (concat cs0')" unfolding f(4) using m0 by simp
  then have ins: "in_stream c0' fl' rcd" by (rule holds_in_stream[OF f(2)])
  have ex: "\<exists>c0' c1' fl' cs0' cs1'.
             flush (Dual c0 c1) fl buf = Some (Dual c0' c1', fl')
             \<and> holds c0' fl' cs0' \<and> holds c1' fl' cs1'
             \<and> concat cs0' = concat cs0 @ filter (\<lambda>x. \<not> is_c1 x) buf
             \<and> concat cs1' = concat cs1 @ filter is_c1 buf
             \<and> rcd \<in> set (filter (\<lambda>x. \<not> is_c1 x) buf) \<and> rcd \<notin> set (filter is_c1 buf)
             \<and> in_stream c0' fl' rcd"
    by (intro exI[of _ c0'] exI[of _ c1'] exI[of _ fl'] exI[of _ cs0'] exI[of _ cs1'] conjI)
       (rule f m0 m1 ins)+
  show ?thesis using msg ex by (simp add: can1_msgs_def)
qed



lemma disjoint_paths_hd:
  assumes "base c0 \<noteq> []" "base c1 \<noteq> []" "hd (base c0) \<noteq> hd (base c1)"
  shows "disjoint_paths c0 c1"
proof -
  have "hd (path_at w k) = hd (base w)" if "base w \<noteq> []" for w k
    using that by (simp add: path_at_def writer_path_def)
  then show ?thesis using assms unfolding disjoint_paths_def by metis
qed

lemma base_a: "base (new_writer ''a.csv'' 10 [''message'']) = ''a''"
  unfolding new_writer_def by (simp, code_simp)

lemma base_b: "base (new_writer ''b.csv'' 10 [''message'']) = ''b''"
  unfolding new_writer_def by (simp, code_simp)

lemma disjoint_ab:
  "disjoint_paths (new_writer ''a.csv'' 10 [''message'']) (new_writer ''b.csv'' 10 [''message''])"
  by (rule disjoint_paths_hd) (simp_all add: base_a base_b)

theorem therm_addrclaim_written_to_c0_witness:
  "row_id [''id'', ''data''] [''18EEFF80'', ''0102030405060708''] = Some THERM_ADDRCLAIM
   \<and> ''channel'' \<notin> set [''id'', ''data'']
   \<and> holds (new_writer ''a.csv'' 10 [''message'']) [] []
   \<and> holds (new_writer ''b.csv'' 10 [''message'']) [] []
   \<and> disjoint_paths (new_writer ''a.csv'' 10 [''message''])
        (new_writer ''b.csv'' 10 [''message''])
   \<and> (\<exists>rcd. row_records False [''id'', ''data''] [''18EEFF80'', ''0102030405060708'']
               = Inr [rcd]
          \<and> \<not> has_channel [rcd]
          \<and> map_of rcd ''message'' = Some (VStr ''THERM_ADDR_CLAIM'')
          \<and> (\<exists>c0' c1' fl'.
                flush (Dual (new_writer ''a.csv'' 10 [''message''])
                            (new_writer ''b.csv'' 10 [''message''])) [] [rcd]
                  = Some (Dual c0' c1', fl')
                \<and> in_stream c0' fl' rcd))"
proof -
  obtain rcd where r: "row_records False [''id'', ''data''] [''18EEFF80'', ''0102030405060708'']
      = Inr [rcd]" and c: "map_of rcd ''channel'' = None"
    using ac_ex3 by blast
  have nc: "''channel'' \<notin> set [''id'', ''data'']" by simp
  have hc: "\<not> has_channel [rcd]" using c by (simp add: has_channel_def)
  have m: "rcd \<in> set [rcd]" by simp
  have h0: "holds (new_writer ''a.csv'' 10 [''message'']) [] []" by (rule holds_new) simp
  have h1: "holds (new_writer ''b.csv'' 10 [''message'']) [] []" by (rule holds_new) simp
  from therm_addrclaim_written_to_c0 [OF ac_ex1 nc r m m hc h0 h1 disjoint_ab]
  have "map_of rcd ''message'' = Some (VStr ''THERM_ADDR_CLAIM'')
      \<and> (\<exists>c0' c1' fl'.
                flush (Dual (new_writer ''a.csv'' 10 [''message''])
                            (new_writer ''b.csv'' 10 [''message''])) [] [rcd]
                  = Some (Dual c0' c1', fl')
                \<and> in_stream c0' fl' rcd)"
    by blast
  then show ?thesis using ac_ex1 nc r hc h0 h1 disjoint_ab by blast
qed


lemma drop_ex3: "row_id [''id'', ''data'', ''channel''] [''123'', ''00'', ''x''] = Some 0x123"
  by code_simp
lemma drop_ex4:
  "row_records False [''id'', ''data'', ''channel''] [''123'', ''00'', ''x'']
   = Inr [[(''timestamp'', VStr []), (''id_hex'', VStr ''0x123''), (''message'', VStr ''RAW''),
           (''raw_data'', VStr ''0000000000000000''), (''channel'', VStr ''x'')]]"
  by code_simp
lemma drop_ex5:
  "split_groups [[(''timestamp'', VStr []), (''id_hex'', VStr ''0x123''),
                  (''message'', VStr ''RAW''), (''raw_data'', VStr ''0000000000000000''),
                  (''channel'', VStr ''x'')]] = ([], [])"
  by code_simp


text \<open>
  C1 fails on the code. In split mode a row tagged with a channel other than \<open>can0\<close> and
  \<open>can1\<close> decodes to one record, but the flush puts it in neither group: the run
  completes with both streams empty, although one record was decoded.
\<close>

theorem split_drops_other_tags:
  "row_records False [''id'', ''data'', ''channel''] [''123'', ''00'', ''x'']
     = Inr [[(''timestamp'', VStr []), (''id_hex'', VStr ''0x123''), (''message'', VStr ''RAW''),
             (''raw_data'', VStr ''0000000000000000''), (''channel'', VStr ''x'')]]
   \<and> split_groups [[(''timestamp'', VStr []), (''id_hex'', VStr ''0x123''),
                     (''message'', VStr ''RAW''), (''raw_data'', VStr ''0000000000000000''),
                     (''channel'', VStr ''x'')]] = ([], [])
   \<and> decode_csv_split [([''id'', ''data'', ''channel''], [[''123'', ''00'', ''x'']])]
        (Some 2) [] ''a.csv'' ''b.csv'' False None 100 True
      = Some (Completed [] [] [(0, ''Starting decode''),
           (999 / 1000, ''Processed 1 of 1 rows''), (1, ''Decoding complete'')])"
  using drop_ex4 drop_ex5 cx_B by simp

subsection \<open>Buffer bound\<close>

lemma len_svolt: "decode_or_svolt ts c d = Inr recs \<Longrightarrow> length recs \<le> 4"
  by (auto simp: decode_or_svolt_def split: if_splits)
lemma len_pack: "decode_or_pack ts c d = Inr recs \<Longrightarrow> length recs \<le> 4"
  by (auto simp: decode_or_pack_def split: if_splits)
lemma len_stemp: "decode_or_stemp ts c d = Inr recs \<Longrightarrow> length recs \<le> 4"
  by (auto simp: decode_or_stemp_def split: if_splits)
lemma len_flags: "decode_or_flags ts c d = Inr recs \<Longrightarrow> length recs \<le> 4"
  by (auto simp: decode_or_flags_def split: if_splits)
lemma len_avolt: "decode_or_avolt ts c d ib = Inr recs \<Longrightarrow> length recs \<le> 4"
  by (auto simp: decode_or_avolt_def Let_def split: if_splits)
lemma len_atemp: "decode_or_atemp ts c d = Inr recs \<Longrightarrow> length recs \<le> 4"
  by (auto simp: decode_or_atemp_def Let_def split: if_splits)
lemma len_tgen: "decode_therm_general ts c d = Inr recs \<Longrightarrow> length recs \<le> 4"
  by (auto simp: decode_therm_general_def split: if_splits)
lemma len_tac: "decode_therm_addrclaim ts c d = Inr recs \<Longrightarrow> length recs \<le> 4"
  by (auto simp: decode_therm_addrclaim_def split: if_splits)
lemma len_mc: "decode_mc ts c d = Inr recs \<Longrightarrow> length recs \<le> 4"
  by (auto simp: decode_mc_def Let_def split: sum.splits prod.splits)
lemma len_dc: "decode_dc ts c d = Inr recs \<Longrightarrow> length recs \<le> 4"
  by (auto simp: decode_dc_def Let_def split: sum.splits prod.splits if_splits)
lemma len_stw: "decode_stw ts c d = Inr recs \<Longrightarrow> length recs \<le> 4"
  by (auto simp: decode_stw_def Let_def split: sum.splits prod.splits if_splits)
lemma len_bp: "decode_bp ts c d = Inr recs \<Longrightarrow> length recs \<le> 4"
  by (auto simp: decode_bp_def Let_def split: sum.splits prod.splits if_splits)
lemma len_mppt: "decode_mppt ts c d = Inr recs \<Longrightarrow> length recs \<le> 4"
  by (auto simp: decode_mppt_def Let_def split: sum.splits prod.splits)


lemma len_exact:
  "DECODERS_EXACT cid = Some dec \<Longrightarrow> dec ts cid d = Inr recs \<Longrightarrow> length recs \<le> 4"
  unfolding DECODERS_EXACT_def
  by (auto split: if_splits
      dest: len_svolt len_pack len_stemp len_flags len_avolt len_atemp len_tgen len_tac len_mppt)

lemma len_dynamic: "decode_dynamic ts cid d = Inr (Some recs) \<Longrightarrow> length recs \<le> 4"
  unfolding decode_dynamic_def
  by (auto split: if_splits sum.splits simp: map_sum_def
      dest: len_mc len_dc len_stw len_bp len_mppt)

lemma len_dispatch: "dispatch ts cid d = Inr (Some recs) \<Longrightarrow> length recs \<le> 4"
  unfolding dispatch_def
  by (auto split: option.splits sum.splits simp: map_sum_def dest: len_exact len_dynamic)

lemma len_row_records: "row_records ib cols r = Inr recs \<Longrightarrow> length recs \<le> 4"
  by (auto simp: row_records_eq decoded_records_def
      split: option.splits sum.splits dest: len_dispatch)

lemma row_loop_append:
  "row_loop ib cols ws fl buf xs = Some (None, ws1, fl1, buf1) \<Longrightarrow>
   row_loop ib cols ws fl buf (xs @ ys) = row_loop ib cols ws1 fl1 buf1 ys"
proof (induction xs arbitrary: ws fl buf)
  case Nil
  then show ?case by simp
next
  case (Cons x xs)
  then show ?case
    by (auto split: sum.splits if_splits option.splits)
qed

lemma row_loop_buf:
  "row_loop ib cols ws fl buf xs = Some (None, ws1, fl1, buf1) \<Longrightarrow>
   length buf < FLUSH_EVERY \<Longrightarrow> length buf1 < FLUSH_EVERY"
proof (induction xs arbitrary: ws fl buf)
  case Nil
  then show ?case by simp
next
  case (Cons x xs)
  then show ?case
    by (fastforce split: sum.splits if_splits option.splits simp: FLUSH_EVERY_def)
qed

text \<open>
  C7 (as amended). Whenever the row loop of a chunk has worked through some of its rows
  and goes on with the rest, the buffer it holds has fewer than \<open>FLUSH_EVERY\<close> records;
  a row appends at most four records before the flush check, so the buffer never holds
  more than \<open>FLUSH_EVERY + 3\<close> records, whatever the size of the chunk.
\<close>

theorem buffer_peak_bound:
  assumes "row_loop ib cols ws fl [] rows1 = Some (None, ws1, fl1, buf1)"
  shows "row_loop ib cols ws fl [] (rows1 @ rows2) = row_loop ib cols ws1 fl1 buf1 rows2
       \<and> length buf1 < FLUSH_EVERY
       \<and> (\<forall>r recs. row_records ib cols r = Inr recs
              \<longrightarrow> length (buf1 @ recs) \<le> FLUSH_EVERY + 3)"
proof -
  have a: "row_loop ib cols ws fl [] (rows1 @ rows2) = row_loop ib cols ws1 fl1 buf1 rows2"
    using assms by (rule row_loop_append)
  have b: "length buf1 < FLUSH_EVERY"
    using assms by (rule row_loop_buf) (simp add: FLUSH_EVERY_def)
  have c: "length (buf1 @ recs) \<le> FLUSH_EVERY + 3" if "row_records ib cols r = Inr recs" for r recs
    using len_row_records[OF that] b by simp
  show ?thesis using a b c by blast
qed


lemma row_loop_replicate:
  "row_records ib cols r = Inr [x] \<Longrightarrow> length buf + n < FLUSH_EVERY \<Longrightarrow>
   row_loop ib cols ws fl buf (replicate n r) = Some (None, ws, fl, buf @ replicate n x)"
proof (induction n arbitrary: buf)
  case 0
  then show ?case by simp
next
  case (Suc n)
  have "length (buf @ [x]) + n < FLUSH_EVERY" using Suc.prems(2) by simp
  from Suc.IH[OF Suc.prems(1) this] show ?case
    using Suc.prems by (simp add: replicate_app_Cons_same)
qed

lemma at1: "row_id [''id'', ''data''] [''6B5'', ''0101020203030404''] = Some 0x6B5" by code_simp
lemma at2: "fromhex (row_data [''id'', ''data''] [''6B5'', ''0101020203030404''])
    = Some [1, 1, 2, 2, 3, 3, 4, 4]" by code_simp
lemma at3: "dispatch ts 0x6B5 d = map_sum id Some (decode_or_atemp ts 0x6B5 d)"
  by (simp add: dispatch_def DECODERS_EXACT_def id_consts)
lemma at4: "hex_py 0x6B5 = ''0x6b5''" by code_simp

lemma raw_row_records:
  "row_records False [''id'', ''data''] [''123'', ''00'']
   = Inr [[(''timestamp'', VStr []), (''id_hex'', VStr ''0x123''), (''message'', VStr ''RAW''), (''raw_data'', VStr ''0000000000000000'')]]"
  by code_simp

lemma atemp_row_records:
  "row_records False [''id'', ''data''] [''6B5'', ''0101020203030404'']
   = Inr [[(''timestamp'', VStr []), (''id_hex'', VStr ''0x6b5''), (''message'', VStr ''OR_ATEMP''), (''thermistor_local_id'', VInt 1), (''temp_C'', VInt 1)],
        [(''timestamp'', VStr []), (''id_hex'', VStr ''0x6b5''), (''message'', VStr ''OR_ATEMP''), (''thermistor_local_id'', VInt 2), (''temp_C'', VInt 2)],
        [(''timestamp'', VStr []), (''id_hex'', VStr ''0x6b5''), (''message'', VStr ''OR_ATEMP''), (''thermistor_local_id'', VInt 3), (''temp_C'', VInt 3)],
        [(''timestamp'', VStr []), (''id_hex'', VStr ''0x6b5''), (''message'', VStr ''OR_ATEMP''), (''thermistor_local_id'', VInt 4), (''temp_C'', VInt 4)]]"
  by (simp add: row_records_eq decoded_records_def at1 at2 at3 decode_or_atemp_def
      byte_at_def s8_def head_fields_def Let_def with_extras_def row_get_def cell_or_def at4)

text \<open>
  C7 as stated fails: after 9999 rows of one record each, a row of four extra
  temperatures brings the buffer to 10003 records, above the threshold of 10000, before
  the flush check is reached.
\<close>

theorem buffer_peak_counterexample:
  "row_loop False [''id'', ''data''] (Single (new_writer ''o.csv'' 100 [])) [] []
       (replicate 9999 [''123'', ''00''])
     = Some (None, Single (new_writer ''o.csv'' 100 []), [],
             replicate 9999 [(''timestamp'', VStr []), (''id_hex'', VStr ''0x123''), (''message'', VStr ''RAW''), (''raw_data'', VStr ''0000000000000000'')])
   \<and> row_records False [''id'', ''data''] [''6B5'', ''0101020203030404'']
     = Inr [[(''timestamp'', VStr []), (''id_hex'', VStr ''0x6b5''), (''message'', VStr ''OR_ATEMP''), (''thermistor_local_id'', VInt 1), (''temp_C'', VInt 1)],
        [(''timestamp'', VStr []), (''id_hex'', VStr ''0x6b5''), (''message'', VStr ''OR_ATEMP''), (''thermistor_local_id'', VInt 2), (''temp_C'', VInt 2)],
        [(''timestamp'', VStr []), (''id_hex'', VStr ''0x6b5''), (''message'', VStr ''OR_ATEMP''), (''thermistor_local_id'', VInt 3), (''temp_C'', VInt 3)],
        [(''timestamp'', VStr []), (''id_hex'', VStr ''0x6b5''), (''message'', VStr ''OR_ATEMP''), (''thermistor_local_id'', VInt 4), (''temp_C'', VInt 4)]]
   \<and> length (replicate 9999 [(''timestamp'', VStr []), (''id_hex'', VStr ''0x123''), (''message'', VStr ''RAW''), (''raw_data'', VStr ''0000000000000000'')]
              @ [[(''timestamp'', VStr []), (''id_hex'', VStr ''0x6b5''), (''message'', VStr ''OR_ATEMP''), (''thermistor_local_id'', VInt 1), (''temp_C'', VInt 1)],
        [(''timestamp'', VStr []), (''id_hex'', VStr ''0x6b5''), (''message'', VStr ''OR_ATEMP''), (''thermistor_local_id'', VInt 2), (''temp_C'', VInt 2)],
        [(''timestamp'', VStr []), (''id_hex'', VStr ''0x6b5''), (''message'', VStr ''OR_ATEMP''), (''thermistor_local_id'', VInt 3), (''temp_C'', VInt 3)],
        [(''timestamp'', VStr []), (''id_hex'', VStr ''0x6b5''), (''message'', VStr ''OR_ATEMP''), (''thermistor_local_id'', VInt 4), (''temp_C'', VInt 4)]]) = 10003
   \<and> FLUSH_EVERY = 10000"
proof -
  have "length ([] :: rec list) + 9999 < FLUSH_EVERY" by (simp add: FLUSH_EVERY_def)
  from row_loop_replicate[OF raw_row_records this] show ?thesis
    using atemp_row_records by (simp add: FLUSH_EVERY_def)
qed

theorem buffer_peak_bound_witness:
  "row_loop False [''id'', ''data''] (Single (new_writer ''o.csv'' 100 [])) [] []
       (replicate 9999 [''123'', ''00''])
     = Some (None, Single (new_writer ''o.csv'' 100 []), [],
             replicate 9999 [(''timestamp'', VStr []), (''id_hex'', VStr ''0x123''), (''message'', VStr ''RAW''), (''raw_data'', VStr ''0000000000000000'')])
   \<and> length (replicate 9999 [(''timestamp'', VStr []), (''id_hex'', VStr ''0x123''), (''message'', VStr ''RAW''), (''raw_data'', VStr ''0000000000000000'')]) < FLUSH_EVERY
   \<and> length (replicate 9999 [(''timestamp'', VStr []), (''id_hex'', VStr ''0x123''), (''message'', VStr ''RAW''), (''raw_data'', VStr ''0000000000000000'')]
              @ [[(''timestamp'', VStr []), (''id_hex'', VStr ''0x6b5''), (''message'', VStr ''OR_ATEMP''), (''thermistor_local_id'', VInt 1), (''temp_C'', VInt 1)],
        [(''timestamp'', VStr []), (''id_hex'', VStr ''0x6b5''), (''message'', VStr ''OR_ATEMP''), (''thermistor_local_id'', VInt 2), (''temp_C'', VInt 2)],
        [(''timestamp'', VStr []), (''id_hex'', VStr ''0x6b5''), (''message'', VStr ''OR_ATEMP''), (''thermistor_local_id'', VInt 3), (''temp_C'', VInt 3)],
        [(''timestamp'', VStr []), (''id_hex'', VStr ''0x6b5''), (''message'', VStr ''OR_ATEMP''), (''thermistor_local_id'', VInt 4), (''temp_C'', VInt 4)]]) \<le> FLUSH_EVERY + 3"
proof -
  have "length ([] :: rec list) + 9999 < FLUSH_EVERY" by (simp add: FLUSH_EVERY_def)
  from row_loop_replicate[OF raw_row_records this]
  have r: "row_loop False [''id'', ''data''] (Single (new_writer ''o.csv'' 100 [])) [] []
       (replicate 9999 [''123'', ''00''])
     = Some (None, Single (new_writer ''o.csv'' 100 []), [],
             replicate 9999 [(''timestamp'', VStr []), (''id_hex'', VStr ''0x123''), (''message'', VStr ''RAW''), (''raw_data'', VStr ''0000000000000000'')])"
    by simp
  from buffer_peak_bound [OF r, of "[]"] atemp_row_records r show ?thesis
    by (simp add: FLUSH_EVERY_def)
qed

end
